theory Spec2Isabelle
  imports Main
begin

section \<open>The default plugin of github-release-packager: version normalisation\<close>

text \<open>
  This theory embeds the version functions of \<^verbatim>\<open>lib/grp-plugin-default.js\<close>:
  \<^verbatim>\<open>GetSectionString\<close>, \<^verbatim>\<open>ParseSection\<close>, \<^verbatim>\<open>ParseVersion\<close> and \<^verbatim>\<open>getSemver\<close>,
  together with the JavaScript built-ins they call (\<^verbatim>\<open>trim\<close>, \<^verbatim>\<open>split\<close>, \<^verbatim>\<open>join\<close>,
  \<^verbatim>\<open>parseInt\<close>, \<^verbatim>\<open>replace\<close> with a character class) and the function \<^verbatim>\<open>valid\<close> of
  the npm package \<^verbatim>\<open>semver\<close> that \<^verbatim>\<open>getSemver\<close> calls first.

  Conventions of the embedding.
  \<^item> A JavaScript string is a \<^typ>\<open>string\<close>; one \<^typ>\<open>char\<close> stands for one UTF-16 code
    unit below 256. Strings with a code unit from 256 on are outside the model.
  \<^item> An argument whose JavaScript type may not be \<^verbatim>\<open>string\<close> is a \<open>js_value\<close>.
  \<^item> \<^verbatim>\<open>throw Error(...)\<close> is the left injection of a sum; the \<^verbatim>\<open>async\<close> functions
    are modelled by the value their promise settles with.
  \<^item> A JavaScript number is an IEEE double. The numbers of this program are the results
    of \<^verbatim>\<open>parseInt\<close>: integers rounded to the nearest double, or an infinity. A finite
    one is kept as the integer it is equal to; \<open>round_double\<close> is the rounding and
    \<open>number_string\<close> is the text \<^verbatim>\<open>join\<close> prints for it.
\<close>

subsection \<open>JavaScript values and errors\<close>

datatype js_value =
    JUndefined
  | JNull
  | JBoolean bool
  | JNumber int
  | JString string

text \<open>
  The source has four \<^verbatim>\<open>throw\<close> statements, all of class \<^verbatim>\<open>Error\<close>, told apart by
  their message only; each message interpolates the offending argument.
  \<^item> \<open>VersionNotStringOrBlank\<close>: \<^verbatim>\<open>getSemver\<close>, "is not a string, or empty, or consists
    only of whitespace characters";
  \<^item> \<open>VersionNotString\<close>: \<^verbatim>\<open>ParseVersion\<close>, "Type of parameter 'version' must be
    'string'";
  \<^item> \<open>SectionNotString\<close>: \<^verbatim>\<open>ParseSection\<close> and \<^verbatim>\<open>GetSectionString\<close>, "Type of
    parameter 'section' must be 'string'".
\<close>

datatype error =
    VersionNotStringOrBlank js_value
  | VersionNotString js_value
  | SectionNotString js_value

subsection \<open>Characters\<close>

definition is_digit :: "char \<Rightarrow> bool" where
  "is_digit c \<longleftrightarrow> 48 \<le> (of_char c :: nat) \<and> (of_char c :: nat) \<le> 57"

definition is_lower :: "char \<Rightarrow> bool" where
  "is_lower c \<longleftrightarrow> 97 \<le> (of_char c :: nat) \<and> (of_char c :: nat) \<le> 122"

definition is_upper :: "char \<Rightarrow> bool" where
  "is_upper c \<longleftrightarrow> 65 \<le> (of_char c :: nat) \<and> (of_char c :: nat) \<le> 90"

definition is_letter :: "char \<Rightarrow> bool" where
  "is_letter c \<longleftrightarrow> is_lower c \<or> is_upper c"

text \<open>
  White space as \<^verbatim>\<open>String.prototype.trim\<close> and \<^verbatim>\<open>parseInt\<close> see it: TAB, LF, VT,
  FF, CR, space and the no-break space U+00A0 (the white space and line terminator
  code units below 256).
\<close>

definition is_space :: "char \<Rightarrow> bool" where
  "is_space c \<longleftrightarrow> (of_char c :: nat) \<in> {9, 10, 11, 12, 13, 32, 160}"

definition digit_val :: "char \<Rightarrow> nat" where
  "digit_val c = of_char c - 48"

definition digit_char :: "nat \<Rightarrow> char" where
  "digit_char d = char_of (48 + d)"

definition is_hex_digit :: "char \<Rightarrow> bool" where
  "is_hex_digit c \<longleftrightarrow>
     is_digit c
     \<or> (97 \<le> (of_char c :: nat) \<and> (of_char c :: nat) \<le> 102)
     \<or> (65 \<le> (of_char c :: nat) \<and> (of_char c :: nat) \<le> 70)"

definition hex_val :: "char \<Rightarrow> nat" where
  "hex_val c =
     (if is_digit c then of_char c - 48
      else if 97 \<le> (of_char c :: nat) then of_char c - 87
      else of_char c - 55)"

subsection \<open>String built-ins\<close>

text \<open>\<^verbatim>\<open>s.trim()\<close>: white space removed at both ends.\<close>

definition js_trim :: "string \<Rightarrow> string" where
  "js_trim s = rev (dropWhile is_space (rev (dropWhile is_space s)))"

text \<open>
  \<^verbatim>\<open>s.split(sep)\<close> for a separator of one character: the pieces between all
  occurrences of the separator; the result is never empty, and the empty string
  gives one empty piece. (The inner \<open>case\<close> has a branch for an empty list to be total;
  it is never taken.)
\<close>

fun js_split :: "char \<Rightarrow> string \<Rightarrow> string list" where
  "js_split sep [] = [[]]"
| "js_split sep (c # cs) =
     (if c = sep then [] # js_split sep cs
      else (case js_split sep cs of
              [] \<Rightarrow> [[c]]
            | t # ts \<Rightarrow> (c # t) # ts))"

text \<open>
  \<^verbatim>\<open>s.split(sep, limit)\<close>: the string is split at every occurrence of the separator
  and the array is cut after \<open>limit\<close> pieces; the pieces beyond are discarded.
\<close>

definition js_split_limit :: "char \<Rightarrow> nat \<Rightarrow> string \<Rightarrow> string list" where
  "js_split_limit sep limit s = take limit (js_split sep s)"

text \<open>\<^verbatim>\<open>arr.join(sep)\<close> on an array of strings.\<close>

fun js_join :: "string \<Rightarrow> string list \<Rightarrow> string" where
  "js_join sep [] = []"
| "js_join sep [x] = x"
| "js_join sep (x # y # ys) = x @ sep @ js_join sep (y # ys)"

subsection \<open>Numbers\<close>

text \<open>The decimal digits of a non-negative integer.\<close>

function show_nat :: "nat \<Rightarrow> string" where
  "show_nat n = (if n < 10 then [digit_char n] else show_nat (n div 10) @ [digit_char (n mod 10)])"
  by pat_completeness auto
termination
  by (relation "measure (\<lambda>n. n)") auto

declare show_nat.simps [simp del]

text \<open>The value of a run of digits in radix 10 and in radix 16.\<close>

definition dec_val :: "string \<Rightarrow> nat" where
  "dec_val ds = foldl (\<lambda>acc c. acc * 10 + digit_val c) 0 ds"

definition hex_run_val :: "string \<Rightarrow> nat" where
  "hex_run_val ds = foldl (\<lambda>acc c. acc * 16 + hex_val c) 0 ds"

text \<open>
  The double nearest to a non-negative integer, ties to the even significand: an
  integer below \<open>2 ^ 53\<close> is a double; a larger one keeps its 53 leading bits, rounded;
  from \<open>2 ^ 1024\<close> on the result is \<^verbatim>\<open>Infinity\<close>, here \<open>None\<close>. \<open>bit_length\<close> is the number
  of binary digits.
\<close>

function bit_length :: "nat \<Rightarrow> nat" where
  "bit_length n = (if n = 0 then 0 else Suc (bit_length (n div 2)))"
  by pat_completeness auto
termination
  by (relation "measure (\<lambda>n. n)") auto

declare bit_length.simps [simp del]

definition round_double :: "nat \<Rightarrow> nat option" where
  "round_double n =
     (if n < 2 ^ 53 then Some n
      else
        (let e = bit_length n - 53;
             q = n div 2 ^ e;
             r = n mod 2 ^ e;
             q' = (if 2 * r > 2 ^ e \<or> (2 * r = 2 ^ e \<and> odd q) then q + 1 else q)
         in if q' * 2 ^ e \<ge> 2 ^ 1024 then None else Some (q' * 2 ^ e)))"

text \<open>
  A number as \<^verbatim>\<open>parseInt\<close> returns it: a finite double that is an integer (\<^verbatim>\<open>-0\<close> is
  \<open>Finite 0\<close>; no test of the program tells them apart), or an infinity. \<^verbatim>\<open>NaN\<close> is the
  \<open>None\<close> of the result of \<open>parseInt\<close>.
\<close>

datatype js_number = Finite int | PlusInfinity | MinusInfinity

text \<open>
  \<^verbatim>\<open>parseInt(s)\<close> without a radix: leading white space is skipped, one sign is
  read, a prefix \<^verbatim>\<open>0x\<close> or \<^verbatim>\<open>0X\<close> selects radix 16, and the longest run of digits of
  the radix that follows is the value; whatever comes after the run is ignored. With an
  empty run the result is \<^verbatim>\<open>NaN\<close>. The result is the double nearest to the value (for
  more than 20 decimal digits the language leaves the last digits to the implementation;
  Node.js rounds the exact value).
\<close>

definition parseInt :: "string \<Rightarrow> js_number option" where
  "parseInt inputString =
     (let S = dropWhile is_space inputString;
          negative = (case S of c # _ \<Rightarrow> c = CHR ''-'' | [] \<Rightarrow> False);
          S1 = (case S of c # r \<Rightarrow> if c = CHR ''-'' \<or> c = CHR ''+'' then r else S | [] \<Rightarrow> S);
          hex = (case S1 of a # b # _ \<Rightarrow> a = CHR ''0'' \<and> (b = CHR ''x'' \<or> b = CHR ''X'') | _ \<Rightarrow> False);
          S2 = (if hex then drop 2 S1 else S1);
          Z = (if hex then takeWhile is_hex_digit S2 else takeWhile is_digit S2)
      in if Z = [] then None
         else
           (case round_double (if hex then hex_run_val Z else dec_val Z) of
              None \<Rightarrow> Some (if negative then MinusInfinity else PlusInfinity)
            | Some m \<Rightarrow> Some (Finite (if negative then - int m else int m))))"

text \<open>
  The text of a finite, non-negative, integral double \<open>x\<close> (\<^verbatim>\<open>Number::toString\<close>, which
  \<^verbatim>\<open>join\<close> and template literals use): the decimal with the fewest significant digits
  that still rounds to \<open>x\<close>, the one nearest to \<open>x\<close> when there are two. \<open>shortest_from\<close>
  looks for it among the multiples of \<open>10 ^ m\<close> next to \<open>x\<close>, for \<open>m\<close> from the number of
  digits of \<open>x\<close> downwards. A decimal below \<open>10 ^ 21\<close> is printed by its digits, a larger one
  in exponent form, as in \<^verbatim>\<open>1e+21\<close> and \<^verbatim>\<open>1.2345678901234568e+29\<close>.
\<close>

function shortest_from :: "nat \<Rightarrow> nat \<Rightarrow> nat" where
  "shortest_from x m =
     (let p = 10 ^ m;
          lo = (x div p) * p;
          hi = lo + p;
          lo_ok = (lo > 0 \<and> round_double lo = Some x);
          hi_ok = (round_double hi = Some x)
      in if lo_ok \<and> hi_ok then
           (if x - lo < hi - x then lo
            else if hi - x < x - lo then hi
            else if even (x div p) then lo else hi)
         else if lo_ok then lo
         else if hi_ok then hi
         else if m = 0 then x
         else shortest_from x (m - 1))"
  by pat_completeness auto
termination
  by (relation "measure (\<lambda>(x, m). m)") auto

declare shortest_from.simps [simp del]

definition shortest_decimal :: "nat \<Rightarrow> nat" where
  "shortest_decimal x = (if x = 0 then 0 else shortest_from x (length (show_nat x)))"

definition exponent_form :: "nat \<Rightarrow> string" where
  "exponent_form v =
     (let ds = show_nat v;
          s = rev (dropWhile (\<lambda>c. c = CHR ''0'') (rev ds))
      in (case s of [] \<Rightarrow> [] | [c] \<Rightarrow> [c] | c # cs \<Rightarrow> c # ''.'' @ cs)
         @ ''e+'' @ show_nat (length ds - 1))"

definition number_string :: "nat \<Rightarrow> string" where
  "number_string x =
     (let v = shortest_decimal x in if v < 10 ^ 21 then show_nat v else exponent_form v)"

subsection \<open>Sections and versions\<close>

text \<open>
  A section part is a number or a string (\<^verbatim>\<open>VersionSection = (string | number)[]\<close>).
  A number part is never negative: \<open>Num n\<close> is the finite double equal to \<open>n\<close>, and
  \<open>NumInfinity\<close> is the number \<^verbatim>\<open>Infinity\<close>.
\<close>

datatype part = Num nat | NumInfinity | Str string

record Version =
  Release :: "part list"
  Prerelease :: "part list"
  BuildMetadata :: "part list"

text \<open>
  \<^verbatim>\<open>GetSectionString\<close>: \<^verbatim>\<open>section.replace(/[^0-9a-zA-Z-\.]/g, '.')\<close>. The class keeps
  digits, letters, the hyphen and the dot.
\<close>

definition valid_section_char :: "char \<Rightarrow> bool" where
  "valid_section_char c \<longleftrightarrow> is_digit c \<or> is_letter c \<or> c = CHR ''-'' \<or> c = CHR ''.''"

definition replace_invalid :: "string \<Rightarrow> string" where
  "replace_invalid s = map (\<lambda>c. if valid_section_char c then c else CHR ''.'') s"

definition GetSectionString :: "js_value \<Rightarrow> error + string" where
  "GetSectionString section =
     (case section of
        JString s \<Rightarrow> Inr (replace_invalid s)
      | _ \<Rightarrow> Inl (SectionNotString section))"

text \<open>
  The callback of \<^verbatim>\<open>forEach\<close> in \<^verbatim>\<open>ParseSection\<close>, with its three arguments: the
  part, its index and the length of the array. It returns what it pushes; \<open>token_part\<close>
  is its branch for a part that is not blank: the number \<^verbatim>\<open>parseInt\<close> finds when
  there is one and it is not negative, the part itself otherwise.
\<close>

definition token_part :: "string \<Rightarrow> part" where
  "token_part part =
     (case parseInt part of
        None \<Rightarrow> Str part
      | Some (Finite num) \<Rightarrow> if num \<ge> 0 then Num (nat num) else Str part
      | Some PlusInfinity \<Rightarrow> NumInfinity
      | Some MinusInfinity \<Rightarrow> Str part)"

definition section_part :: "string \<Rightarrow> nat \<Rightarrow> nat \<Rightarrow> part list" where
  "section_part part pIdx len =
     (if js_trim part = [] then
        (if int pIdx < int len - 1 then [Num 0] else [])
      else [token_part part])"

fun forEach_parts :: "string list \<Rightarrow> nat \<Rightarrow> nat \<Rightarrow> part list" where
  "forEach_parts [] pIdx len = []"
| "forEach_parts (part # rest) pIdx len =
     section_part part pIdx len @ forEach_parts rest (Suc pIdx) len"

definition section_parts :: "string \<Rightarrow> part list" where
  "section_parts str = (let pArr = js_split CHR ''.'' str in forEach_parts pArr 0 (length pArr))"

definition ParseSection :: "js_value \<Rightarrow> error + part list" where
  "ParseSection section =
     (case section of
        JString s \<Rightarrow>
          (case GetSectionString section of
             Inl e \<Rightarrow> Inl e
           | Inr str \<Rightarrow> Inr (section_parts str))
      | _ \<Rightarrow> Inl (SectionNotString section))"

text \<open>
  \<^verbatim>\<open>ParseVersion\<close>. The variable \<^verbatim>\<open>sections\<close> is assigned twice: the second test
  \<^verbatim>\<open>sections.length > 1\<close> reads the pieces of the split at \<^verbatim>\<open>+\<close> when there was a
  hyphen, and the pieces of the split at \<^verbatim>\<open>-\<close> (at most one) when there was none.
\<close>

definition ParseVersion :: "js_value \<Rightarrow> error + Version" where
  "ParseVersion version =
     (case version of
        JString s \<Rightarrow>
          (let sections = js_split_limit CHR ''-'' 2 s in
           case ParseSection (JString (sections ! 0)) of
             Inl e \<Rightarrow> Inl e
           | Inr rel \<Rightarrow>
               if length sections > 1 then
                 (let sections' = js_split_limit CHR ''+'' 2 (sections ! 1) in
                  case ParseSection (JString (sections' ! 0)) of
                    Inl e \<Rightarrow> Inl e
                  | Inr pre \<Rightarrow>
                      if length sections' > 1 then
                        (case ParseSection (JString (sections' ! 1)) of
                           Inl e \<Rightarrow> Inl e
                         | Inr bm \<Rightarrow>
                             Inr \<lparr>Release = rel, Prerelease = pre, BuildMetadata = bm\<rparr>)
                      else Inr \<lparr>Release = rel, Prerelease = pre, BuildMetadata = []\<rparr>)
               else Inr \<lparr>Release = rel, Prerelease = [], BuildMetadata = []\<rparr>)
      | _ \<Rightarrow> Inl (VersionNotString version))"

subsection \<open>The function \<open>valid\<close> of the package \<open>semver\<close>\<close>

text \<open>
  \<^verbatim>\<open>getSemver\<close> first calls \<^verbatim>\<open>semver.valid(version, { includePrerelease: true })\<close>.
  The package (dependency \<^verbatim>\<open>semver ^7.1.3\<close> of \<^verbatim>\<open>package.json\<close>) is not part of the
  repository; the definitions of this subsection follow its files
  \<^verbatim>\<open>internal/re.js\<close>, \<^verbatim>\<open>classes/semver.js\<close>, \<^verbatim>\<open>functions/parse.js\<close> and
  \<^verbatim>\<open>functions/valid.js\<close> in strict (not loose) mode:
  \<^item> \<^verbatim>\<open>NUMERICIDENTIFIER = 0|[1-9]\d*\<close>,
    \<^verbatim>\<open>NONNUMERICIDENTIFIER = \d*[a-zA-Z-][a-zA-Z0-9-]*\<close>,
    \<^verbatim>\<open>BUILDIDENTIFIER = [0-9A-Za-z-]+\<close>;
  \<^item> \<^verbatim>\<open>FULL = ^v?(N)\.(N)\.(N)(?:-(P(?:\.P)*))?(?:\+(B(?:\.B)*))?$\<close> with \<open>N\<close> a
    numeric, \<open>P\<close> a numeric or non-numeric and \<open>B\<close> a build identifier;
  \<^item> \<^verbatim>\<open>parse\<close> rejects more than 256 characters and tests \<^verbatim>\<open>FULL\<close> on the string as
    it is given (so in version 7.1.3; later versions leave both to the constructor);
  \<^item> the constructor rejects more than 256 characters, matches \<^verbatim>\<open>FULL\<close> on the trimmed
    string, and rejects a major, minor or patch number above
    \<^verbatim>\<open>Number.MAX_SAFE_INTEGER\<close>; it turns the prerelease identifiers made of digits only
    into numbers when below that bound;
  \<^item> \<^verbatim>\<open>format\<close> prints the three numbers and the prerelease identifiers; the build
    identifiers are not part of the printed version;
  \<^item> \<^verbatim>\<open>valid\<close> returns the printed version of the parsed object, or \<^verbatim>\<open>null\<close>.
\<close>

definition MAX_LENGTH :: nat where
  "MAX_LENGTH = 256"

definition MAX_SAFE_INTEGER :: nat where
  "MAX_SAFE_INTEGER = 9007199254740991"

definition is_id_char :: "char \<Rightarrow> bool" where
  "is_id_char c \<longleftrightarrow> is_digit c \<or> is_letter c \<or> c = CHR ''-''"

definition numeric_identifier :: "string \<Rightarrow> bool" where
  "numeric_identifier s \<longleftrightarrow>
     (case s of
        [] \<Rightarrow> False
      | c # cs \<Rightarrow> if c = CHR ''0'' then cs = [] else is_digit c \<and> list_all is_digit cs)"

definition nonnumeric_identifier :: "string \<Rightarrow> bool" where
  "nonnumeric_identifier s \<longleftrightarrow>
     (case dropWhile is_digit s of
        [] \<Rightarrow> False
      | c # cs \<Rightarrow> (is_letter c \<or> c = CHR ''-'') \<and> list_all is_id_char cs)"

definition prerelease_identifier :: "string \<Rightarrow> bool" where
  "prerelease_identifier s \<longleftrightarrow> numeric_identifier s \<or> nonnumeric_identifier s"

definition build_identifier :: "string \<Rightarrow> bool" where
  "build_identifier s \<longleftrightarrow> s \<noteq> [] \<and> list_all is_id_char s"

text \<open>
  The match of \<^verbatim>\<open>FULL\<close>, with its five groups; \<open>strip_v\<close> is the optional \<^verbatim>\<open>v\<close> at
  the start. No character of the three numbers or of the prerelease is a plus sign, so
  the build group starts after the first plus sign; no character of the three numbers
  is a hyphen, so the prerelease group starts after the first hyphen before that.
\<close>

definition strip_v :: "string \<Rightarrow> string" where
  "strip_v version =
     (case version of c # r \<Rightarrow> if c = CHR ''v'' then r else version | [] \<Rightarrow> version)"

definition match_FULL :: "string \<Rightarrow> (string \<times> string \<times> string \<times> string option \<times> string option) option" where
  "match_FULL version =
     (let s = strip_v version;
          main_pre = takeWhile (\<lambda>c. c \<noteq> CHR ''+'') s;
          bld = (case dropWhile (\<lambda>c. c \<noteq> CHR ''+'') s of [] \<Rightarrow> None | _ # b \<Rightarrow> Some b);
          main = takeWhile (\<lambda>c. c \<noteq> CHR ''-'') main_pre;
          pre = (case dropWhile (\<lambda>c. c \<noteq> CHR ''-'') main_pre of [] \<Rightarrow> None | _ # p \<Rightarrow> Some p);
          nums = js_split CHR ''.'' main
      in if length nums = 3 \<and> list_all numeric_identifier nums
            \<and> (case pre of None \<Rightarrow> True
                | Some p \<Rightarrow> list_all prerelease_identifier (js_split CHR ''.'' p))
            \<and> (case bld of None \<Rightarrow> True
                | Some b \<Rightarrow> list_all build_identifier (js_split CHR ''.'' b))
         then Some (nums ! 0, nums ! 1, nums ! 2, pre, bld)
         else None)"

record SemVer =
  major :: nat
  minor :: nat
  patch :: nat
  prerelease :: "part list"
  build :: "string list"

text \<open>The constructor \<^verbatim>\<open>new SemVer(version, options)\<close>; \<open>None\<close> when it throws.\<close>

definition prerelease_id :: "string \<Rightarrow> part" where
  "prerelease_id ident =
     (if ident \<noteq> [] \<and> list_all is_digit ident \<and> dec_val ident < MAX_SAFE_INTEGER
      then Num (dec_val ident) else Str ident)"

definition SemVer_new :: "string \<Rightarrow> SemVer option" where
  "SemVer_new version =
     (if length version > MAX_LENGTH then None
      else case match_FULL (js_trim version) of
             None \<Rightarrow> None
           | Some (a, b, c, pre, bld) \<Rightarrow>
               if dec_val a > MAX_SAFE_INTEGER \<or> dec_val b > MAX_SAFE_INTEGER
                  \<or> dec_val c > MAX_SAFE_INTEGER
               then None
               else Some \<lparr>major = dec_val a, minor = dec_val b, patch = dec_val c,
                          prerelease = (case pre of None \<Rightarrow> []
                                        | Some p \<Rightarrow> map prerelease_id (js_split CHR ''.'' p)),
                          build = (case bld of None \<Rightarrow> []
                                   | Some b \<Rightarrow> js_split CHR ''.'' b)\<rparr>)"

text \<open>\<^verbatim>\<open>parse(version, options)\<close> of \<^verbatim>\<open>functions/parse.js\<close>.\<close>

definition semver_parse :: "string \<Rightarrow> SemVer option" where
  "semver_parse version =
     (if length version > MAX_LENGTH then None
      else if match_FULL version = None then None
      else SemVer_new version)"

text \<open>How a part prints inside \<^verbatim>\<open>join\<close>: a number by its text, a string as it is.\<close>

fun part_string :: "part \<Rightarrow> string" where
  "part_string (Num n) = number_string n"
| "part_string NumInfinity = ''Infinity''"
| "part_string (Str s) = s"

definition join_parts :: "part list \<Rightarrow> string" where
  "join_parts ps = js_join ''.'' (map part_string ps)"

definition semver_format :: "SemVer \<Rightarrow> string" where
  "semver_format v =
     show_nat (major v) @ ''.'' @ show_nat (minor v) @ ''.'' @ show_nat (patch v)
     @ (if prerelease v \<noteq> [] then ''-'' @ join_parts (prerelease v) else [])"

definition semver_valid :: "string \<Rightarrow> string option" where
  "semver_valid version = map_option semver_format (semver_parse version)"

subsection \<open>\<open>getSemver\<close>\<close>

text \<open>
  The loop that sets \<^verbatim>\<open>firstThreeVersionPartsAreDigits\<close>: it runs \<open>vIdx\<close> from \<open>0\<close> to
  \<^verbatim>\<open>Math.min(sections.Release.length, 3)\<close> and stops at the first part whose
  \<^verbatim>\<open>typeof\<close> is not \<^verbatim>\<open>'number'\<close>.
\<close>

function firstThreeVersionPartsAreDigits_from :: "part list \<Rightarrow> nat \<Rightarrow> bool" where
  "firstThreeVersionPartsAreDigits_from rel vIdx =
     (if vIdx < min (length rel) 3 then
        (case rel ! vIdx of
           Str _ \<Rightarrow> False
         | _ \<Rightarrow> firstThreeVersionPartsAreDigits_from rel (Suc vIdx))
      else True)"
  by pat_completeness auto
termination
  by (relation "measure (\<lambda>(rel, vIdx). min (length rel) 3 - vIdx)") auto

declare firstThreeVersionPartsAreDigits_from.simps [simp del]

definition firstThreeVersionPartsAreDigits :: "part list \<Rightarrow> bool" where
  "firstThreeVersionPartsAreDigits rel = firstThreeVersionPartsAreDigits_from rel 0"

text \<open>Lines 41 to 57 of the source: the release part of the result.\<close>

definition release_string :: "part list \<Rightarrow> string" where
  "release_string rel =
     (if firstThreeVersionPartsAreDigits rel then
        join_parts (take (min (length rel) 3) rel)
        @ (if length rel < 3 then ''.0'' else [])
        @ (if length rel < 2 then ''.0'' else [])
        @ (if length rel > 3 then ''-'' @ join_parts (drop 3 rel) else [])
      else
        ''0.0.0'' @ (if length rel > 0 then ''-'' @ join_parts rel else []))"

text \<open>Lines 34 to 67: the string assembled from the parsed version.\<close>

definition assemble :: "Version \<Rightarrow> string" where
  "assemble sections =
     release_string (Release sections)
     @ (if length (Prerelease sections) > 0 then ''-'' @ join_parts (Prerelease sections) else [])
     @ (if length (BuildMetadata sections) > 0 then ''+'' @ join_parts (BuildMetadata sections) else [])"

text \<open>
  \<^verbatim>\<open>getSemver(version, defaultPlugin)\<close>, with the default plugin itself as
  \<^verbatim>\<open>defaultPlugin\<close>, which is how the package and its tests call it.
\<close>

definition getSemver :: "js_value \<Rightarrow> error + string" where
  "getSemver version =
     (case version of
        JString s \<Rightarrow>
          if js_trim s = [] then Inl (VersionNotStringOrBlank version)
          else
            (case semver_valid s of
               Some result \<Rightarrow> Inr result
             | None \<Rightarrow>
                 (case ParseVersion version of
                    Inl e \<Rightarrow> Inl e
                  | Inr sections \<Rightarrow> Inr (assemble sections)))
      | _ \<Rightarrow> Inl (VersionNotStringOrBlank version))"

section \<open>Properties\<close>

subsection \<open>The sanitizer\<close>

lemma replace_invalid_length: "length (replace_invalid s) = length s"
  by (simp add: replace_invalid_def)

lemma valid_section_char_dot: "valid_section_char (CHR ''.'')"
  by (simp add: valid_section_char_def)

lemma replace_invalid_valid: "c \<in> set (replace_invalid s) \<Longrightarrow> valid_section_char c"
  by (auto simp: replace_invalid_def valid_section_char_dot)

lemma replace_invalid_fixed: "list_all valid_section_char s \<Longrightarrow> replace_invalid s = s"
  by (induction s) (auto simp: replace_invalid_def)

lemma replace_invalid_idem: "replace_invalid (replace_invalid s) = replace_invalid s"
  by (rule replace_invalid_fixed) (simp add: list_all_iff replace_invalid_valid)

text \<open>The character class \<^verbatim>\<open>[0-9a-zA-Z-\.]\<close>, character by character.\<close>

lemma section_chars_valid:
  "list_all valid_section_char
     ''0123456789abcdefghijklmnopqrstuvwxyzABCDEFGHIJKLMNOPQRSTUVWXYZ-.''"
  by (simp add: valid_section_char_def is_digit_def is_letter_def is_lower_def is_upper_def)

lemma valid_section_char_iff:
  "valid_section_char c \<longleftrightarrow>
     c \<in> set ''0123456789abcdefghijklmnopqrstuvwxyzABCDEFGHIJKLMNOPQRSTUVWXYZ-.''"
proof
  assume "c \<in> set ''0123456789abcdefghijklmnopqrstuvwxyzABCDEFGHIJKLMNOPQRSTUVWXYZ-.''"
  then show "valid_section_char c"
    using section_chars_valid by (simp only: list_all_iff)
next
  assume v: "valid_section_char c"
  show "c \<in> set ''0123456789abcdefghijklmnopqrstuvwxyzABCDEFGHIJKLMNOPQRSTUVWXYZ-.''"
  proof (cases c)
    case (Char b0 b1 b2 b3 b4 b5 b6 b7)
    with v show ?thesis
      by (cases b0; cases b1; cases b2; cases b3; cases b4; cases b5; cases b6; cases b7)
         (simp_all add: valid_section_char_def is_digit_def is_letter_def is_lower_def
            is_upper_def)
  qed
qed

text \<open>
  Claim C9. For every string \<open>s\<close>, the empty one included, \<open>GetSectionString\<close> returns a
  string of the length of \<open>s\<close> in which exactly the characters outside
  \<^verbatim>\<open>[0-9a-zA-Z-.]\<close> are replaced by a dot, and applying it to its own result changes
  nothing.
\<close>

theorem GetSectionString_sanitizes:
  "\<exists>r. GetSectionString (JString s) = Inr r
     \<and> length r = length s
     \<and> (\<forall>i < length s.
           r ! i =
             (if s ! i \<in> set ''0123456789abcdefghijklmnopqrstuvwxyzABCDEFGHIJKLMNOPQRSTUVWXYZ-.''
              then s ! i else CHR ''.''))
     \<and> GetSectionString (JString r) = Inr r"
proof -
  have "\<forall>i < length s.
          replace_invalid s ! i =
            (if s ! i \<in> set ''0123456789abcdefghijklmnopqrstuvwxyzABCDEFGHIJKLMNOPQRSTUVWXYZ-.''
             then s ! i else CHR ''.'')"
    unfolding valid_section_char_iff [symmetric] by (simp add: replace_invalid_def)
  then show ?thesis
    by (simp add: GetSectionString_def replace_invalid_idem replace_invalid_length)
qed

theorem GetSectionString_sanitizes_witness:
  "GetSectionString (JString ''1 2_3-rc.1+x/Y'') = Inr ''1.2.3-rc.1.x.Y''
   \<and> GetSectionString (JString ''1.2.3-rc.1.x.Y'') = Inr ''1.2.3-rc.1.x.Y''
   \<and> GetSectionString (JString []) = Inr []"
  using GetSectionString_sanitizes [of "''1 2_3-rc.1+x/Y''"]
  by (simp add: GetSectionString_def replace_invalid_def valid_section_char_def
        is_digit_def is_letter_def is_lower_def is_upper_def)

subsection \<open>Splitting and trimming\<close>

lemma js_split_nonempty: "js_split sep s \<noteq> []"
  by (induction s) (auto split: list.splits)

lemma js_split_chars_all: "\<forall>t \<in> set (js_split sep s). set t \<subseteq> set s"
  by (induction s) (auto split: list.splits if_splits)

lemma js_split_chars: "t \<in> set (js_split sep s) \<Longrightarrow> set t \<subseteq> set s"
  using js_split_chars_all by blast

lemma js_split_no_sep_all: "\<forall>t \<in> set (js_split sep s). sep \<notin> set t"
  by (induction s) (auto split: list.splits if_splits)

lemma js_split_no_sep: "t \<in> set (js_split sep s) \<Longrightarrow> sep \<notin> set t"
  using js_split_no_sep_all by blast

text \<open>A string trims to the empty string exactly when it is empty or all white space.\<close>

lemma js_trim_empty_iff: "js_trim s = [] \<longleftrightarrow> (\<forall>c \<in> set s. is_space c)"
proof
  assume "js_trim s = []"
  then have "dropWhile is_space (rev (dropWhile is_space s)) = []"
    by (simp add: js_trim_def)
  then have all: "\<forall>c \<in> set (dropWhile is_space s). is_space c"
    by simp
  have "dropWhile is_space s = []"
  proof (cases "dropWhile is_space s")
    case Nil
    then show ?thesis .
  next
    case (Cons c cs)
    then have "\<not> is_space c"
      using hd_dropWhile [of is_space s] by simp
    with all Cons show ?thesis by simp
  qed
  then show "\<forall>c \<in> set s. is_space c"
    by simp
next
  assume "\<forall>c \<in> set s. is_space c"
  then show "js_trim s = []"
    by (auto simp: js_trim_def dest: set_dropWhileD)
qed

lemma is_letter_simps:
  "is_letter c \<longleftrightarrow>
     (97 \<le> (of_char c :: nat) \<and> (of_char c :: nat) \<le> 122)
     \<or> (65 \<le> (of_char c :: nat) \<and> (of_char c :: nat) \<le> 90)"
  by (simp add: is_letter_def is_lower_def is_upper_def)

lemma valid_section_char_not_space: "valid_section_char c \<Longrightarrow> \<not> is_space c"
  by (auto simp: valid_section_char_def is_space_def is_digit_def is_letter_simps)

subsection \<open>The tokenizer\<close>

text \<open>No white space is left after \<open>GetSectionString\<close>: a part is blank only when empty.\<close>

lemma token_trim_empty:
  assumes "t \<in> set (js_split sep (replace_invalid s))"
  shows "js_trim t = [] \<longleftrightarrow> t = []"
proof -
  have "\<forall>c \<in> set t. \<not> is_space c"
    using assms js_split_chars replace_invalid_valid valid_section_char_not_space by blast
  then show ?thesis
    by (cases t) (auto simp: js_trim_empty_iff)
qed

text \<open>
  The loop over the parts, started at index \<open>pIdx\<close> with \<open>len - pIdx\<close> parts left: every
  part but the last gives one element, \<open>0\<close> when it is empty; the last part gives one
  element unless it is empty.
\<close>

lemma forEach_parts_tokens:
  assumes "\<forall>t \<in> set ts. js_trim t = [] \<longleftrightarrow> t = []" and "ts \<noteq> []"
    and "pIdx + length ts = len"
  shows "forEach_parts ts pIdx len =
           concat (map (\<lambda>t. if t = [] then [Num 0] else [token_part t]) (butlast ts))
           @ (if last ts = [] then [] else [token_part (last ts)])"
  using assms
proof (induction ts arbitrary: pIdx)
  case Nil
  then show ?case by simp
next
  case (Cons t ts)
  show ?case
  proof (cases "ts = []")
    case True
    with Cons.prems show ?thesis
      by (auto simp: section_part_def)
  next
    case False
    have "forEach_parts ts (Suc pIdx) len =
           concat (map (\<lambda>t. if t = [] then [Num 0] else [token_part t]) (butlast ts))
           @ (if last ts = [] then [] else [token_part (last ts)])"
      using Cons.prems False by (intro Cons.IH) auto
    moreover have "section_part t pIdx len = (if t = [] then [Num 0] else [token_part t])"
      using Cons.prems False by (cases ts) (auto simp: section_part_def)
    ultimately show ?thesis
      using False by simp
  qed
qed

lemma section_parts_tokens:
  "section_parts (replace_invalid s) =
     concat (map (\<lambda>t. if t = [] then [Num 0] else [token_part t])
                 (butlast (js_split CHR ''.'' (replace_invalid s))))
     @ (if last (js_split CHR ''.'' (replace_invalid s)) = [] then []
        else [token_part (last (js_split CHR ''.'' (replace_invalid s)))])"
proof -
  have "\<forall>t \<in> set (js_split CHR ''.'' (replace_invalid s)). js_trim t = [] \<longleftrightarrow> t = []"
    using token_trim_empty by blast
  then show ?thesis
    by (simp add: section_parts_def Let_def forEach_parts_tokens js_split_nonempty)
qed

lemma ParseSection_JString: "ParseSection (JString s) = Inr (section_parts (replace_invalid s))"
  by (simp add: ParseSection_def GetSectionString_def)


subsection \<open>Splitting, joining and decimal digits\<close>

lemma js_join_Cons_Cons: "js_join sep ((c # t) # ts) = c # js_join sep (t # ts)"
  by (cases ts) simp_all

lemma js_join_split: "js_join [sep] (js_split sep s) = s"
proof (induction s)
  case Nil
  show ?case by simp
next
  case (Cons c cs)
  obtain t ts where ts: "js_split sep cs = t # ts"
    using js_split_nonempty [of sep cs] by (cases "js_split sep cs") auto
  with Cons show ?case
    by (auto simp: js_join_Cons_Cons)
qed

lemma digit_char_digit_val: "is_digit c \<Longrightarrow> digit_char (digit_val c) = c"
  by (simp add: is_digit_def digit_char_def digit_val_def)

lemma digit_val_digit_char: "d < 10 \<Longrightarrow> digit_val (digit_char d) = d"
  by (simp add: digit_char_def digit_val_def)

lemma is_digit_digit_char: "d < 10 \<Longrightarrow> is_digit (digit_char d)"
  by (simp add: digit_char_def is_digit_def)

lemma digit_val_less: "is_digit c \<Longrightarrow> digit_val c < 10"
  by (auto simp: is_digit_def digit_val_def)

lemma digit_val_zero: "is_digit c \<Longrightarrow> digit_val c = 0 \<longleftrightarrow> c = CHR ''0''"
proof -
  assume d: "is_digit c"
  have "digit_val c = 0 \<longleftrightarrow> (of_char c :: nat) = 48"
    using d by (auto simp: is_digit_def digit_val_def)
  also have "\<dots> \<longleftrightarrow> (of_char c :: nat) = of_char (CHR ''0'')"
    by simp
  also have "\<dots> \<longleftrightarrow> c = CHR ''0''"
    by (metis of_char_eq_iff)
  finally show ?thesis .
qed

lemma dec_val_snoc: "dec_val (ds @ [d]) = dec_val ds * 10 + digit_val d"
  by (simp add: dec_val_def)

lemma dec_val_Nil: "dec_val [] = 0"
  by (simp add: dec_val_def)

lemma dec_val_single: "dec_val [d] = digit_val d"
  by (simp add: dec_val_def)

lemma char_of_48: "char_of (48 :: nat) = CHR ''0''"
  by code_simp

lemma dec_val_0: "dec_val ''0'' = 0"
  by (simp add: dec_val_def digit_val_def)

lemma dec_val_pos:
  "ds \<noteq> [] \<Longrightarrow> list_all is_digit ds \<Longrightarrow> hd ds \<noteq> CHR ''0'' \<Longrightarrow> 0 < dec_val ds"
proof (induction ds rule: rev_induct)
  case Nil
  then show ?case by simp
next
  case (snoc d ds)
  show ?case
  proof (cases "ds = []")
    case True
    with snoc.prems show ?thesis
      using digit_val_zero [of d] by (simp add: dec_val_single)
  next
    case False
    with snoc show ?thesis
      by (simp add: dec_val_snoc)
  qed
qed

lemma show_nat_dec_val:
  "ds \<noteq> [] \<Longrightarrow> list_all is_digit ds \<Longrightarrow> hd ds \<noteq> CHR ''0'' \<Longrightarrow> show_nat (dec_val ds) = ds"
proof (induction ds rule: rev_induct)
  case Nil
  then show ?case by simp
next
  case (snoc d ds)
  have d: "is_digit d" using snoc.prems by simp
  show ?case
  proof (cases "ds = []")
    case True
    with d show ?thesis
      by (subst show_nat.simps) (simp add: dec_val_single digit_val_less digit_char_digit_val)
  next
    case False
    then have pos: "0 < dec_val ds" and IH: "show_nat (dec_val ds) = ds"
      using snoc by (simp_all add: dec_val_pos)
    have "\<not> dec_val ds * 10 + digit_val d < 10"
      using pos by simp
    moreover have "(dec_val ds * 10 + digit_val d) div 10 = dec_val ds"
      using digit_val_less [OF d] by simp
    moreover have "(dec_val ds * 10 + digit_val d) mod 10 = digit_val d"
      using digit_val_less [OF d] by simp
    ultimately show ?thesis
      using IH d by (subst show_nat.simps) (simp add: dec_val_snoc digit_char_digit_val)
  qed
qed

lemma show_nat_0: "show_nat 0 = ''0''"
  by (subst show_nat.simps) (simp add: digit_char_def char_of_48)

lemma numeric_identifier_iff:
  "numeric_identifier s \<longleftrightarrow> s = ''0'' \<or> (s \<noteq> [] \<and> list_all is_digit s \<and> hd s \<noteq> CHR ''0'')"
  by (cases s) (auto simp: numeric_identifier_def)

lemma show_nat_numeric: "numeric_identifier s \<Longrightarrow> show_nat (dec_val s) = s"
  unfolding numeric_identifier_iff
  by (auto simp: show_nat_dec_val show_nat_0 dec_val_0)


subsection \<open>Doubles and their text\<close>

text \<open>Rounding changes no integer below \<open>2 ^ 53\<close>, and such an integer prints as its digits.\<close>

lemma digit_char_simps:
  "digit_char 0 = CHR ''0''" "digit_char 1 = CHR ''1''" "digit_char 2 = CHR ''2''"
  "digit_char 3 = CHR ''3''" "digit_char 4 = CHR ''4''" "digit_char 5 = CHR ''5''"
  "digit_char 6 = CHR ''6''" "digit_char 7 = CHR ''7''" "digit_char 8 = CHR ''8''"
  "digit_char 9 = CHR ''9''" "digit_char (Suc 0) = CHR ''1''"
  unfolding digit_char_def by code_simp+

lemma bit_length_bounds: "0 < n \<Longrightarrow> 2 ^ (bit_length n - 1) \<le> n \<and> n < 2 ^ bit_length n"
proof (induction n rule: bit_length.induct)
  case (1 n)
  show ?case
  proof (cases "n div 2 = 0")
    case True
    then have "n = 1"
      using 1(2) by (simp add: div_eq_0_iff)
    moreover have "bit_length (Suc 0) = 1"
      by (simp add: bit_length.simps)
    ultimately show ?thesis by simp
  next
    case False
    then have IH: "2 ^ (bit_length (n div 2) - 1) \<le> n div 2" "n div 2 < 2 ^ bit_length (n div 2)"
      using 1 by simp_all
    have b: "bit_length n = Suc (bit_length (n div 2))"
      using 1(2) by (subst bit_length.simps) simp
    have pos: "0 < bit_length (n div 2)"
      using False by (subst bit_length.simps) simp
    then obtain k where k: "bit_length (n div 2) = Suc k"
      by (cases "bit_length (n div 2)") auto
    have "2 * 2 ^ k \<le> n"
      using IH(1) k by (simp; presburger)
    moreover have "n < 2 * 2 ^ Suc k"
      using IH(2) k by (simp; presburger)
    ultimately show ?thesis
      using b k by simp
  qed
qed

lemma round_double_small: "n < 2 ^ 53 \<Longrightarrow> round_double n = Some n"
  by (simp add: round_double_def)

lemma round_double_large:
  assumes "\<not> n < 2 ^ 53" and "round_double n = Some m"
  shows "\<not> m < 2 ^ 53"
proof -
  define e where "e = bit_length n - 53"
  define q where "q = n div 2 ^ e"
  define r where "r = n mod 2 ^ e"
  define q' where "q' = (if 2 * r > 2 ^ e \<or> (2 * r = 2 ^ e \<and> odd q) then q + 1 else q)"
  have m: "m = q' * 2 ^ e"
    using assms by (auto simp: round_double_def Let_def e_def q_def r_def q'_def split: if_splits)
  have pos: "0 < n"
    using assms(1) by (cases n) auto
  note b = bit_length_bounds [OF pos]
  have "53 < bit_length n"
  proof (rule ccontr)
    assume "\<not> 53 < bit_length n"
    then have "bit_length n \<le> 53"
      by simp
    then have "(2::nat) ^ bit_length n \<le> 2 ^ 53"
      by (rule power_increasing) simp
    with assms(1) b show False
      by linarith
  qed
  then have bl: "bit_length n - 1 = 52 + e"
    by (simp add: e_def)
  have "(2::nat) ^ 52 * 2 ^ e \<le> n"
    using b bl by (simp add: power_add)
  then have "2 ^ 52 \<le> q"
    unfolding q_def by (simp add: less_eq_div_iff_mult_less_eq)
  then have "2 ^ 52 \<le> q'"
    by (simp add: q'_def)
  moreover have "1 \<le> e"
    using \<open>53 < bit_length n\<close> by (simp add: e_def)
  then have "(2::nat) \<le> 2 ^ e"
    by (metis power_increasing one_le_numeral power_one_right)
  ultimately have "(2::nat) ^ 52 * 2 \<le> q' * 2 ^ e"
    by (rule mult_le_mono)
  then show ?thesis
    using m by simp
qed

lemma shortest_from_small:
  assumes "0 < x" and "x < 2 ^ 53"
  shows "shortest_from x m = x"
proof (induction m)
  case 0
  have "round_double x = Some x"
    using assms(2) by (rule round_double_small)
  moreover have "round_double (Suc x) \<noteq> Some x"
  proof (cases "Suc x < 2 ^ 53")
    case True
    then show ?thesis by (simp add: round_double_small)
  next
    case False
    then show ?thesis
      using round_double_large [of "Suc x" x] assms(2) by auto
  qed
  ultimately show ?case
    using assms(1) by (subst shortest_from.simps) (simp add: Let_def)
next
  case (Suc m)
  define p :: nat where "p = 10 ^ Suc m"
  define lo where "lo = (x div p) * p"
  have lo: "lo \<le> x"
    by (simp add: lo_def)
  have hi: "x < lo + p"
    unfolding lo_def p_def
    by (metis add.commute dividend_less_div_times mult.commute power_not_zero zero_less_numeral
        zero_less_iff_neq_zero div_mult_mod_eq add_less_cancel_left mod_less_divisor)
  have lo_ok: "round_double lo = Some x \<longleftrightarrow> lo = x"
    using lo assms(2) by (simp add: round_double_small)
  have hi_no: "round_double (lo + p) \<noteq> Some x"
  proof (cases "lo + p < 2 ^ 53")
    case True
    then show ?thesis using hi by (simp add: round_double_small)
  next
    case False
    then show ?thesis
      using round_double_large [of "lo + p" x] assms(2) by auto
  qed
  have "shortest_from x (Suc m) =
          (if 0 < lo \<and> round_double lo = Some x then lo else shortest_from x m)"
    unfolding shortest_from.simps [of x "Suc m"] Let_def p_def [symmetric] lo_def [symmetric]
    using hi_no by (cases "lo = 0") auto
  then show ?case
    using Suc lo_ok by simp
qed

lemma shortest_decimal_small: "x < 2 ^ 53 \<Longrightarrow> shortest_decimal x = x"
  by (simp add: shortest_decimal_def shortest_from_small)

lemma number_string_small: "x < 2 ^ 53 \<Longrightarrow> number_string x = show_nat x"
  by (simp add: number_string_def shortest_decimal_small)

lemma exponent_form_plus: "CHR ''+'' \<in> set (exponent_form v)"
  by (simp add: exponent_form_def Let_def)

lemma number_string_cases:
  "number_string x = show_nat (shortest_decimal x) \<or> CHR ''+'' \<in> set (number_string x)"
  by (simp add: number_string_def Let_def exponent_form_plus)

text \<open>Definitions to unfold when a token or a section is evaluated.\<close>

lemmas token_eval = token_part_def parseInt_def is_space_def is_digit_def is_hex_digit_def
  dec_val_def hex_run_val_def digit_val_def hex_val_def round_double_def

lemmas section_eval = section_parts_def section_part_def js_trim_def replace_invalid_def
  valid_section_char_def is_letter_simps

text \<open>
  Claim C6. For every section string, with \<open>toks\<close> the result of splitting the
  sanitized string at the dots: an empty token that is not the last one of \<open>toks\<close> is
  emitted as the integer \<open>0\<close>, and an empty last token is dropped; every other token gives
  its one part, in order. Consequently the empty string gives the empty sequence,
  \<^verbatim>\<open>"a..b"\<close> gives \<open>[a, 0, b]\<close> and \<^verbatim>\<open>"a."\<close> gives \<open>[a]\<close> (the witness).
\<close>

theorem ParseSection_empty_tokens:
  "ParseSection (JString s) =
     Inr (concat (map (\<lambda>t. if t = [] then [Num 0] else [token_part t])
                      (butlast (js_split CHR ''.'' (replace_invalid s))))
          @ (if last (js_split CHR ''.'' (replace_invalid s)) = [] then []
             else [token_part (last (js_split CHR ''.'' (replace_invalid s)))]))"
  unfolding ParseSection_JString by (rule arg_cong [OF section_parts_tokens])

theorem ParseSection_empty_tokens_witness:
  "ParseSection (JString []) = Inr []
   \<and> ParseSection (JString ''a..b'') = Inr [Str ''a'', Num 0, Str ''b'']
   \<and> ParseSection (JString ''a.'') = Inr [Str ''a'']"
  using ParseSection_empty_tokens [of "''a..b''"] ParseSection_empty_tokens [of "''a.''"]
    ParseSection_empty_tokens [of "[]"]
  by (simp add: replace_invalid_def valid_section_char_def is_letter_simps token_eval)


subsection \<open>The parser\<close>

lemma ParseVersion_JString:
  "ParseVersion (JString s) =
     Inr (let sections = js_split_limit CHR ''-'' 2 s;
              sections' = js_split_limit CHR ''+'' 2 (sections ! 1)
          in \<lparr>Release = section_parts (replace_invalid (sections ! 0)),
              Prerelease = (if length sections > 1
                            then section_parts (replace_invalid (sections' ! 0)) else []),
              BuildMetadata = (if length sections > 1 \<and> length sections' > 1
                               then section_parts (replace_invalid (sections' ! 1)) else [])\<rparr>)"
  by (simp add: ParseVersion_def ParseSection_JString Let_def)


subsection \<open>Errors of \<open>getSemver\<close>\<close>

lemma getSemver_JString:
  "js_trim s \<noteq> [] \<Longrightarrow>
   getSemver (JString s) =
     (case semver_valid s of
        Some result \<Rightarrow> Inr result
      | None \<Rightarrow> Inr (assemble (projr (ParseVersion (JString s)))))"
  by (simp add: getSemver_def ParseVersion_JString split: option.splits)

text \<open>
  Claim C5. \<open>getSemver\<close> fails exactly when its argument is not a string, or is a string
  that is empty or all white space, and returns a string for every other string. The two
  causes of the specification, a value that is not a string and a blank string, are one
  test and one \<^verbatim>\<open>throw\<close> in the source; the error carries the argument.
\<close>

theorem getSemver_fails_iff:
  "((\<forall>s. version \<noteq> JString s) \<longrightarrow> getSemver version = Inl (VersionNotStringOrBlank version))
   \<and> (\<forall>s. version = JString s \<and> (\<forall>c \<in> set s. is_space c)
          \<longrightarrow> getSemver version = Inl (VersionNotStringOrBlank version))
   \<and> (\<forall>s. version = JString s \<and> \<not> (\<forall>c \<in> set s. is_space c)
          \<longrightarrow> (\<exists>result. getSemver version = Inr result))"
proof (intro conjI allI impI)
  assume "\<forall>s. version \<noteq> JString s"
  then show "getSemver version = Inl (VersionNotStringOrBlank version)"
    by (cases version) (simp_all add: getSemver_def)
next
  fix s
  assume "version = JString s \<and> (\<forall>c \<in> set s. is_space c)"
  then show "getSemver version = Inl (VersionNotStringOrBlank version)"
    by (simp add: getSemver_def js_trim_empty_iff)
next
  fix s
  assume "version = JString s \<and> \<not> (\<forall>c \<in> set s. is_space c)"
  then have "version = JString s" and "js_trim s \<noteq> []"
    by (simp_all add: js_trim_empty_iff)
  then show "\<exists>result. getSemver version = Inr result"
    by (simp add: getSemver_JString split: option.splits)
qed

theorem getSemver_fails_iff_witness:
  "getSemver (JNumber 42) = Inl (VersionNotStringOrBlank (JNumber 42))
   \<and> getSemver JUndefined = Inl (VersionNotStringOrBlank JUndefined)
   \<and> getSemver (JString []) = Inl (VersionNotStringOrBlank (JString []))
   \<and> getSemver (JString ''   '') = Inl (VersionNotStringOrBlank (JString ''   ''))
   \<and> (\<exists>result. getSemver (JString ''1.2'') = Inr result)"
  using getSemver_fails_iff [of "JNumber 42"] getSemver_fails_iff [of JUndefined]
    getSemver_fails_iff [of "JString []"] getSemver_fails_iff [of "JString ''   ''"]
    getSemver_fails_iff [of "JString ''1.2''"]
  by (simp add: is_space_def)


subsection \<open>The release part of the result\<close>

lemma firstThree_from_iff:
  "firstThreeVersionPartsAreDigits_from rel vIdx \<longleftrightarrow>
     (\<forall>i. vIdx \<le> i \<and> i < min (length rel) 3 \<longrightarrow> (\<forall>s. rel ! i \<noteq> Str s))"
proof (induction rel vIdx rule: firstThreeVersionPartsAreDigits_from.induct)
  case (1 rel vIdx)
  show ?case
  proof (cases "vIdx < min (length rel) 3")
    case False
    then show ?thesis
      by (subst firstThreeVersionPartsAreDigits_from.simps) auto
  next
    case True
    show ?thesis
    proof (cases "\<exists>s. rel ! vIdx = Str s")
      case False
      then have "(\<forall>i. vIdx \<le> i \<and> i < min (length rel) 3 \<longrightarrow> (\<forall>s. rel ! i \<noteq> Str s)) \<longleftrightarrow>
            (\<forall>i. Suc vIdx \<le> i \<and> i < min (length rel) 3 \<longrightarrow> (\<forall>s. rel ! i \<noteq> Str s))"
        by (metis Suc_leI le_neq_implies_less Suc_leD)
      moreover have "firstThreeVersionPartsAreDigits_from rel vIdx =
            firstThreeVersionPartsAreDigits_from rel (Suc vIdx)"
        using True False
        by (subst firstThreeVersionPartsAreDigits_from.simps) (auto split: part.splits)
      moreover have "firstThreeVersionPartsAreDigits_from rel (Suc vIdx) \<longleftrightarrow>
            (\<forall>i. Suc vIdx \<le> i \<and> i < min (length rel) 3 \<longrightarrow> (\<forall>s. rel ! i \<noteq> Str s))"
      proof (cases "rel ! vIdx")
        case (Num n)
        with True show ?thesis by (intro 1(1))
      next
        case NumInfinity
        with True show ?thesis by (intro 1(2))
      next
        case (Str s)
        with False show ?thesis by simp
      qed
      ultimately show ?thesis
        by simp
    next
      case True
      with \<open>vIdx < min (length rel) 3\<close> show ?thesis
        by (subst firstThreeVersionPartsAreDigits_from.simps) auto
    qed
  qed
qed

lemma firstThree_iff:
  "firstThreeVersionPartsAreDigits rel \<longleftrightarrow>
     (\<forall>i < min (length rel) 3. \<forall>s. rel ! i \<noteq> Str s)"
  by (simp add: firstThreeVersionPartsAreDigits_def firstThree_from_iff)

lemma firstThree_empty: "firstThreeVersionPartsAreDigits []"
  by (simp add: firstThree_iff)

text \<open>
  With one release part or more, all of the first three numbers, the release part of
  the result has three components: the parts, \<^verbatim>\<open>.0\<close> for each missing one, and the
  parts beyond the third after a hyphen.
\<close>

lemma release_string_numeric:
  assumes "firstThreeVersionPartsAreDigits rel" and "rel \<noteq> []"
  shows "release_string rel =
           join_parts (take 3 rel) @ concat (replicate (3 - length rel) ''.0'')
           @ (if length rel > 3 then ''-'' @ join_parts (drop 3 rel) else [])"
proof -
  have "length rel \<noteq> 0"
    using assms(2) by simp
  then consider "length rel = 1" | "length rel = 2" | "length rel \<ge> 3"
    by linarith
  then show ?thesis
  proof cases
    case 1
    then show ?thesis
      using assms(1) by (simp add: release_string_def numeral_3_eq_3)
  next
    case 2
    then show ?thesis
      using assms(1) by (simp add: release_string_def numeral_3_eq_3)
  next
    case 3
    then show ?thesis
      using assms(1) by (simp add: release_string_def min_def)
  qed
qed


subsection \<open>What \<open>semver.valid\<close> returns\<close>

lemma split_all_chars:
  "(\<forall>t \<in> set (js_split sep s). \<forall>c \<in> set t. P c) \<Longrightarrow> P sep \<Longrightarrow> \<forall>c \<in> set s. P c"
proof (induction s)
  case Nil
  show ?case by simp
next
  case (Cons c cs)
  obtain t ts where ts: "js_split sep cs = t # ts"
    using js_split_nonempty [of sep cs] by (cases "js_split sep cs") auto
  show ?case
  proof (cases "c = sep")
    case True
    with Cons ts show ?thesis by simp
  next
    case False
    with Cons.prems ts have "P c" and "\<forall>t \<in> set (js_split sep cs). \<forall>c \<in> set t. P c"
      by auto
    with Cons show ?thesis by simp
  qed
qed

lemma is_digit_id_char: "is_digit c \<Longrightarrow> is_id_char c"
  by (simp add: is_id_char_def)

lemma numeric_identifier_digits: "numeric_identifier s \<Longrightarrow> list_all is_digit s"
  by (cases s) (auto simp: numeric_identifier_def is_digit_def split: if_splits)

lemma nonnumeric_identifier_chars: "nonnumeric_identifier s \<Longrightarrow> list_all is_id_char s"
proof -
  assume a: "nonnumeric_identifier s"
  then obtain c cs where d: "dropWhile is_digit s = c # cs"
    by (cases "dropWhile is_digit s") (auto simp: nonnumeric_identifier_def)
  with a have "is_id_char c" and "\<forall>x \<in> set cs. is_id_char x"
    by (auto simp: nonnumeric_identifier_def is_id_char_def list_all_iff)
  moreover have "\<forall>x \<in> set (takeWhile is_digit s). is_id_char x"
    by (auto simp: is_digit_id_char dest: set_takeWhileD)
  moreover have "s = takeWhile is_digit s @ c # cs"
    using d takeWhile_dropWhile_id [of is_digit s] by simp
  ultimately have "\<forall>x \<in> set s. is_id_char x"
    by (metis Un_iff set_ConsD set_append)
  then show ?thesis
    by (simp add: list_all_iff)
qed

lemma nonnumeric_identifier_not_digits: "nonnumeric_identifier s \<Longrightarrow> \<not> list_all is_digit s"
proof -
  assume a: "nonnumeric_identifier s"
  then obtain c cs where d: "dropWhile is_digit s = c # cs"
    by (cases "dropWhile is_digit s") (auto simp: nonnumeric_identifier_def)
  then have "\<not> is_digit c"
    using hd_dropWhile [of is_digit s] by simp
  moreover have "c \<in> set s"
    using d set_dropWhileD [of c is_digit s] by simp
  ultimately show ?thesis
    by (auto simp: list_all_iff)
qed

lemma prerelease_identifier_chars: "prerelease_identifier s \<Longrightarrow> list_all is_id_char s"
  using numeric_identifier_digits nonnumeric_identifier_chars
  by (auto simp: prerelease_identifier_def list_all_iff is_digit_id_char)

lemma part_string_prerelease_id:
  "prerelease_identifier t \<Longrightarrow> part_string (prerelease_id t) = t"
  using nonnumeric_identifier_not_digits [of t]
  by (auto simp: prerelease_id_def prerelease_identifier_def show_nat_numeric
        number_string_small MAX_SAFE_INTEGER_def)

lemma join_parts_prerelease_ids:
  assumes "list_all prerelease_identifier (js_split CHR ''.'' p)"
  shows "join_parts (map prerelease_id (js_split CHR ''.'' p)) = p"
proof -
  have "map part_string (map prerelease_id (js_split CHR ''.'' p)) = js_split CHR ''.'' p"
    using assms by (simp add: list_all_iff part_string_prerelease_id map_idI)
  then show ?thesis
    using js_join_split [of "CHR ''.''" p] by (simp add: join_parts_def)
qed

lemma takeWhile_rest:
  "takeWhile (\<lambda>c. c \<noteq> sep) s
     @ (case (case dropWhile (\<lambda>c. c \<noteq> sep) s of [] \<Rightarrow> None | _ # r \<Rightarrow> Some r) of
          None \<Rightarrow> [] | Some r \<Rightarrow> sep # r) = s"
  by (induction s) auto

lemma length_3_nths: "length xs = 3 \<Longrightarrow> xs = [xs ! 0, xs ! 1, xs ! 2]"
  by (cases xs; cases "tl xs"; cases "tl (tl xs)") auto

text \<open>What the groups of a match are, in terms of the matched string.\<close>

lemma match_FULL_groups:
  assumes "match_FULL version = Some (a, b, c, pre, bld)"
  shows "numeric_identifier a \<and> numeric_identifier b \<and> numeric_identifier c
     \<and> (\<forall>p. pre = Some p \<longrightarrow> list_all prerelease_identifier (js_split CHR ''.'' p))
     \<and> (\<forall>x. bld = Some x \<longrightarrow> list_all build_identifier (js_split CHR ''.'' x))
     \<and> takeWhile (\<lambda>c. c \<noteq> CHR ''+'') (strip_v version) =
          a @ ''.'' @ b @ ''.'' @ c @ (case pre of None \<Rightarrow> [] | Some p \<Rightarrow> CHR ''-'' # p)
     \<and> strip_v version = takeWhile (\<lambda>c. c \<noteq> CHR ''+'') (strip_v version)
          @ (case bld of None \<Rightarrow> [] | Some x \<Rightarrow> CHR ''+'' # x)"
proof -
  define s where "s = strip_v version"
  define main_pre where "main_pre = takeWhile (\<lambda>c. c \<noteq> CHR ''+'') s"
  define main where "main = takeWhile (\<lambda>c. c \<noteq> CHR ''-'') main_pre"
  define nums where "nums = js_split CHR ''.'' main"
  define pre' where "pre' = (case dropWhile (\<lambda>c. c \<noteq> CHR ''-'') main_pre of [] \<Rightarrow> None | _ # p \<Rightarrow> Some p)"
  define bld' where "bld' = (case dropWhile (\<lambda>c. c \<noteq> CHR ''+'') s of [] \<Rightarrow> None | _ # x \<Rightarrow> Some x)"
  have m: "match_FULL version =
      (if length nums = 3 \<and> list_all numeric_identifier nums
            \<and> (case pre' of None \<Rightarrow> True
                | Some p \<Rightarrow> list_all prerelease_identifier (js_split CHR ''.'' p))
            \<and> (case bld' of None \<Rightarrow> True
                | Some b \<Rightarrow> list_all build_identifier (js_split CHR ''.'' b))
         then Some (nums ! 0, nums ! 1, nums ! 2, pre', bld')
         else None)"
    by (simp add: match_FULL_def Let_def s_def main_pre_def main_def nums_def pre'_def bld'_def)
  from assms have len: "length nums = 3" and all: "list_all numeric_identifier nums"
    and pre_ok: "case pre' of None \<Rightarrow> True | Some p \<Rightarrow> list_all prerelease_identifier (js_split CHR ''.'' p)"
    and bld_ok: "case bld' of None \<Rightarrow> True | Some b \<Rightarrow> list_all build_identifier (js_split CHR ''.'' b)"
    and res: "Some (nums ! 0, nums ! 1, nums ! 2, pre', bld') = Some (a, b, c, pre, bld)"
    unfolding m by (simp_all split: if_splits)
  from res have abc: "a = nums ! 0" "b = nums ! 1" "c = nums ! 2" and pre: "pre = pre'" and bld: "bld = bld'"
    by simp_all
  have split3: "nums = [a, b, c]"
    using length_3_nths [OF len] abc by simp
  have ids: "numeric_identifier a \<and> numeric_identifier b \<and> numeric_identifier c"
    using all split3 by simp
  have "main = js_join ''.'' nums"
    using js_join_split [of "CHR ''.''" main] by (simp add: nums_def)
  then have main_eq: "main = a @ ''.'' @ b @ ''.'' @ c"
    using split3 by simp
  have mp: "main_pre = main @ (case pre of None \<Rightarrow> [] | Some p \<Rightarrow> CHR ''-'' # p)"
    unfolding main_def pre pre'_def by (rule takeWhile_rest [symmetric])
  have sb: "s = main_pre @ (case bld of None \<Rightarrow> [] | Some x \<Rightarrow> CHR ''+'' # x)"
    unfolding main_pre_def bld bld'_def by (rule takeWhile_rest [symmetric])
  have pre_all: "\<forall>p. pre = Some p \<longrightarrow> list_all prerelease_identifier (js_split CHR ''.'' p)"
    using pre_ok pre by auto
  have bld_all: "\<forall>x. bld = Some x \<longrightarrow> list_all build_identifier (js_split CHR ''.'' x)"
    using bld_ok bld by auto
  have e1: "main_pre = a @ ''.'' @ b @ ''.'' @ c @ (case pre of None \<Rightarrow> [] | Some p \<Rightarrow> CHR ''-'' # p)"
    using mp main_eq by simp
  show ?thesis
    unfolding s_def [symmetric] main_pre_def [symmetric]
    using ids pre_all bld_all e1 sb by blast
qed

lemma dropWhile_none: "\<forall>c \<in> set s. \<not> P c \<Longrightarrow> dropWhile P s = s"
  by (cases s) auto

lemma js_trim_id: "\<forall>c \<in> set s. \<not> is_space c \<Longrightarrow> js_trim s = s"
proof -
  assume a: "\<forall>c \<in> set s. \<not> is_space c"
  then have "dropWhile is_space s = s"
    by (rule dropWhile_none)
  moreover have "dropWhile is_space (rev s) = rev s"
    using a by (intro dropWhile_none) simp
  ultimately show ?thesis
    by (simp add: js_trim_def)
qed

lemma is_id_char_not_space: "is_id_char c \<Longrightarrow> \<not> is_space c"
  by (auto simp: is_id_char_def is_space_def is_digit_def is_letter_simps)

lemma build_identifier_chars: "build_identifier s \<Longrightarrow> list_all is_id_char s"
  by (simp add: build_identifier_def)

lemma match_FULL_no_space:
  assumes "match_FULL v = Some x"
  shows "\<forall>c \<in> set v. \<not> is_space c"
proof -
  obtain a b c pre bld where x: "x = (a, b, c, pre, bld)"
    by (cases x) auto
  define Q where "Q = (\<lambda>c. is_id_char c \<or> c = CHR ''.'' \<or> c = CHR ''+'')"
  note g = match_FULL_groups [OF assms [unfolded x]]
  have abc: "\<forall>x \<in> set a \<union> set b \<union> set c. Q x"
    using g numeric_identifier_digits [of a] numeric_identifier_digits [of b]
      numeric_identifier_digits [of c]
    by (auto simp: Q_def list_all_iff is_digit_id_char)
  have pre: "\<forall>x \<in> set (case pre of None \<Rightarrow> [] | Some p \<Rightarrow> CHR ''-'' # p). Q x"
  proof (cases pre)
    case None
    then show ?thesis by simp
  next
    case (Some p)
    then have "list_all prerelease_identifier (js_split CHR ''.'' p)"
      using g by simp
    then have "\<forall>t \<in> set (js_split CHR ''.'' p). \<forall>c \<in> set t. Q c"
      using prerelease_identifier_chars by (auto simp: list_all_iff Q_def)
    then have "\<forall>c \<in> set p. Q c"
      by (rule split_all_chars) (simp add: Q_def)
    then show ?thesis
      using Some by (simp add: Q_def is_id_char_def)
  qed
  have bld: "\<forall>x \<in> set (case bld of None \<Rightarrow> [] | Some p \<Rightarrow> CHR ''+'' # p). Q x"
  proof (cases bld)
    case None
    then show ?thesis by simp
  next
    case (Some p)
    then have "list_all build_identifier (js_split CHR ''.'' p)"
      using g by simp
    then have "\<forall>t \<in> set (js_split CHR ''.'' p). \<forall>c \<in> set t. Q c"
      using build_identifier_chars by (auto simp: list_all_iff Q_def)
    then have "\<forall>c \<in> set p. Q c"
      by (rule split_all_chars) (simp add: Q_def)
    then show ?thesis
      using Some by (simp add: Q_def)
  qed
  have "strip_v v = a @ ''.'' @ b @ ''.'' @ c @ (case pre of None \<Rightarrow> [] | Some p \<Rightarrow> CHR ''-'' # p)
          @ (case bld of None \<Rightarrow> [] | Some x \<Rightarrow> CHR ''+'' # x)"
    using g by (metis append.assoc)
  then have "\<forall>x \<in> set (strip_v v). Q x"
    using abc pre bld by (auto simp: Q_def)
  moreover have "set v \<subseteq> insert (CHR ''v'') (set (strip_v v))"
    by (cases v) (auto simp: strip_v_def)
  moreover have "Q (CHR ''v'')"
    by (simp add: Q_def is_id_char_def is_letter_simps)
  ultimately have "\<forall>x \<in> set v. Q x"
    by auto
  then show ?thesis
    using is_id_char_not_space by (auto simp: Q_def is_space_def)
qed

lemma semver_format_groups:
  assumes "numeric_identifier a" "numeric_identifier b" "numeric_identifier c"
    and "\<forall>p. pre = Some p \<longrightarrow> list_all prerelease_identifier (js_split CHR ''.'' p)"
  shows "semver_format \<lparr>major = dec_val a, minor = dec_val b, patch = dec_val c,
            prerelease = (case pre of None \<Rightarrow> [] | Some p \<Rightarrow> map prerelease_id (js_split CHR ''.'' p)),
            build = bs\<rparr>
         = a @ ''.'' @ b @ ''.'' @ c @ (case pre of None \<Rightarrow> [] | Some p \<Rightarrow> CHR ''-'' # p)"
  using assms
  by (cases pre) (simp_all add: semver_format_def show_nat_numeric join_parts_prerelease_ids
        js_split_nonempty)

text \<open>
  \<open>semver_valid\<close>, in one equation: a version that matches, within the bounds, is
  returned without its leading \<^verbatim>\<open>v\<close> and without its build metadata.
\<close>

lemma semver_valid_eq:
  "semver_valid v =
     (case match_FULL v of
        None \<Rightarrow> None
      | Some (a, b, c, pre, bld) \<Rightarrow>
          if length v > MAX_LENGTH \<or> dec_val a > MAX_SAFE_INTEGER
             \<or> dec_val b > MAX_SAFE_INTEGER \<or> dec_val c > MAX_SAFE_INTEGER
          then None
          else Some (takeWhile (\<lambda>c. c \<noteq> CHR ''+'') (strip_v v)))"
proof (cases "match_FULL v")
  case None
  then show ?thesis
    by (simp add: semver_valid_def semver_parse_def)
next
  case (Some x)
  obtain a b c pre bld where x: "x = (a, b, c, pre, bld)"
    by (cases x) auto
  have trim: "js_trim v = v"
    using match_FULL_no_space [OF Some] by (rule js_trim_id)
  note g = match_FULL_groups [OF Some [unfolded x]]
  have fmt: "semver_format \<lparr>major = dec_val a, minor = dec_val b, patch = dec_val c,
            prerelease = (case pre of None \<Rightarrow> [] | Some p \<Rightarrow> map prerelease_id (js_split CHR ''.'' p)),
            build = (case bld of None \<Rightarrow> [] | Some b \<Rightarrow> js_split CHR ''.'' b)\<rparr>
         = takeWhile (\<lambda>c. c \<noteq> CHR ''+'') (strip_v v)"
    using g by (simp add: semver_format_groups)
  show ?thesis
    using Some x trim fmt
    by (simp add: semver_valid_def semver_parse_def SemVer_new_def)
qed


subsection \<open>The fast path\<close>

lemma match_FULL_Nil: "match_FULL [] = None"
  by (simp add: match_FULL_def strip_v_def)

lemma semver_valid_nonblank: "semver_valid v = Some r \<Longrightarrow> js_trim v \<noteq> []"
proof -
  assume a: "semver_valid v = Some r"
  then obtain x where x: "match_FULL v = Some x"
    by (cases "match_FULL v") (auto simp: semver_valid_eq)
  then have "js_trim v = v"
    using match_FULL_no_space js_trim_id by blast
  moreover have "v \<noteq> []"
    using x match_FULL_Nil by auto
  ultimately show ?thesis by simp
qed

lemma getSemver_valid: "semver_valid v = Some r \<Longrightarrow> getSemver (JString v) = Inr r"
  using semver_valid_nonblank [of v r] by (simp add: getSemver_def)

lemma semver_valid_Some:
  "semver_valid v = Some r \<Longrightarrow> r = takeWhile (\<lambda>c. c \<noteq> CHR ''+'') (strip_v v)"
  by (auto simp: semver_valid_eq split: option.splits if_splits)

lemma takeWhile_all: "x \<notin> set s \<Longrightarrow> takeWhile (\<lambda>c. c \<noteq> x) s = s"
  by (induction s) auto

text \<open>
  Claim C1, amended. The claim says that every string of the strict grammar is returned
  unchanged, naming \<^verbatim>\<open>"1.2.3-alpha+build"\<close>. The fast path returns what
  \<^verbatim>\<open>semver.valid\<close> returns, the printed form of the parsed version, which has no build
  metadata. What holds: for every string \<open>v\<close> that \<^verbatim>\<open>semver\<close> accepts in strict mode
  (the grammar \<^verbatim>\<open>FULL\<close>, at most 256 characters, the three numbers at most
  \<^verbatim>\<open>Number.MAX_SAFE_INTEGER\<close>) and that has no leading \<^verbatim>\<open>v\<close>, \<open>getSemver\<close> returns \<open>v\<close>
  up to its first plus sign; it returns \<open>v\<close> itself when \<open>v\<close> has no build metadata.
\<close>

theorem getSemver_strict_input:
  assumes "semver_parse v \<noteq> None" and "strip_v v = v"
  shows "getSemver (JString v) = Inr (takeWhile (\<lambda>c. c \<noteq> CHR ''+'') v)
     \<and> (CHR ''+'' \<notin> set v \<longrightarrow> getSemver (JString v) = Inr v)"
proof -
  obtain r where r: "semver_valid v = Some r"
    using assms(1) by (auto simp: semver_valid_def)
  then have "r = takeWhile (\<lambda>c. c \<noteq> CHR ''+'') v"
    using semver_valid_Some [OF r] assms(2) by simp
  then have "getSemver (JString v) = Inr (takeWhile (\<lambda>c. c \<noteq> CHR ''+'') v)"
    using getSemver_valid [OF r] by simp
  then show ?thesis
    by (simp add: takeWhile_all)
qed

lemmas eval_defs = match_FULL_def strip_v_def numeric_identifier_def nonnumeric_identifier_def
  prerelease_identifier_def build_identifier_def is_id_char_def is_digit_def is_letter_simps
  dec_val_def digit_val_def MAX_LENGTH_def MAX_SAFE_INTEGER_def

theorem getSemver_strict_input_witness:
  "getSemver (JString ''1.2.3'') = Inr ''1.2.3''
   \<and> getSemver (JString ''1.2.3-alpha'') = Inr ''1.2.3-alpha''
   \<and> getSemver (JString ''1.2.3-alpha+build'') = Inr ''1.2.3-alpha''"
proof -
  have 1: "semver_parse ''1.2.3'' \<noteq> None"
    and 2: "semver_parse ''1.2.3-alpha'' \<noteq> None"
    and 3: "semver_parse ''1.2.3-alpha+build'' \<noteq> None"
    by (simp_all add: semver_parse_def SemVer_new_def js_trim_def is_space_def eval_defs)
  have s: "strip_v ''1.2.3'' = ''1.2.3''" "strip_v ''1.2.3-alpha'' = ''1.2.3-alpha''"
    "strip_v ''1.2.3-alpha+build'' = ''1.2.3-alpha+build''"
    by (simp_all add: strip_v_def)
  show ?thesis
    using getSemver_strict_input [OF 1 s(1)] getSemver_strict_input [OF 2 s(2)]
      getSemver_strict_input [OF 3 s(3)]
    by simp
qed

text \<open>
  Claim C1 as stated fails on its own example: the build metadata is dropped.
\<close>

theorem getSemver_build_metadata_dropped:
  "semver_parse ''1.2.3-alpha+build'' \<noteq> None
   \<and> strip_v ''1.2.3-alpha+build'' = ''1.2.3-alpha+build''
   \<and> getSemver (JString ''1.2.3-alpha+build'') = Inr ''1.2.3-alpha''
   \<and> getSemver (JString ''1.2.3-alpha+build'') \<noteq> Inr ''1.2.3-alpha+build''"
proof -
  have "semver_valid ''1.2.3-alpha+build'' = Some ''1.2.3-alpha''"
    by (simp add: semver_valid_eq eval_defs)
  then show ?thesis
    using getSemver_valid [of "''1.2.3-alpha+build''" "''1.2.3-alpha''"]
    by (auto simp: semver_valid_def strip_v_def)
qed

lemma strip_v_v: "strip_v (CHR ''v'' # X) = X"
  by (simp add: strip_v_def)

lemma match_FULL_v: "strip_v X = X \<Longrightarrow> match_FULL (CHR ''v'' # X) = match_FULL X"
  by (simp add: match_FULL_def strip_v_v)

text \<open>
  Claim C10, amended. The claim says that \<^verbatim>\<open>"v"\<close> followed by a string \<open>X\<close> of the strict
  grammar gives \<open>X\<close>. As for C1, the build metadata of \<open>X\<close> is not returned, and the
  input with its \<^verbatim>\<open>v\<close> must still have at most 256 characters. What holds: for every
  \<open>X\<close> that \<^verbatim>\<open>semver\<close> accepts in strict mode, with no leading \<^verbatim>\<open>v\<close> and fewer than
  256 characters, \<open>getSemver\<close> of \<^verbatim>\<open>"v"\<close> followed by \<open>X\<close> is \<open>X\<close> up to its first plus
  sign, hence \<open>X\<close> itself when \<open>X\<close> has no build metadata; it is never the
  \<^verbatim>\<open>0.0.0-v...\<close> form.
\<close>

theorem getSemver_v_prefix:
  assumes "semver_parse X \<noteq> None" and "strip_v X = X" and "length X < MAX_LENGTH"
  shows "getSemver (JString (CHR ''v'' # X)) = Inr (takeWhile (\<lambda>c. c \<noteq> CHR ''+'') X)
     \<and> (CHR ''+'' \<notin> set X \<longrightarrow> getSemver (JString (CHR ''v'' # X)) = Inr X)"
proof -
  obtain r where r: "semver_valid X = Some r"
    using assms(1) by (auto simp: semver_valid_def)
  then have "semver_valid (CHR ''v'' # X) = Some (takeWhile (\<lambda>c. c \<noteq> CHR ''+'') X)"
    using assms(2,3)
    by (auto simp: semver_valid_eq match_FULL_v strip_v_v split: option.splits if_splits)
  then have "getSemver (JString (CHR ''v'' # X)) = Inr (takeWhile (\<lambda>c. c \<noteq> CHR ''+'') X)"
    by (rule getSemver_valid)
  then show ?thesis
    by (simp add: takeWhile_all)
qed

text \<open>
  Claim C10 as stated fails when \<open>X\<close> has build metadata.
\<close>

theorem getSemver_v_prefix_build_dropped:
  "semver_parse ''1.2.3+build'' \<noteq> None
   \<and> strip_v ''1.2.3+build'' = ''1.2.3+build''
   \<and> getSemver (JString ''v1.2.3+build'') = Inr ''1.2.3''
   \<and> getSemver (JString ''v1.2.3+build'') \<noteq> Inr ''1.2.3+build''"
proof -
  have "semver_valid ''1.2.3+build'' = Some ''1.2.3''"
    and "semver_valid ''v1.2.3+build'' = Some ''1.2.3''"
    by (simp_all add: semver_valid_eq eval_defs)
  then show ?thesis
    using getSemver_valid [of "''v1.2.3+build''" "''1.2.3''"]
    by (auto simp: semver_valid_def strip_v_def)
qed

theorem getSemver_v_prefix_witness:
  "getSemver (JString ''v1.2.3'') = Inr ''1.2.3''
   \<and> getSemver (JString ''v1.2.3-rc.1'') = Inr ''1.2.3-rc.1''
   \<and> getSemver (JString ''v1.2.3+build'') = Inr ''1.2.3''"
proof -
  have 1: "semver_parse ''1.2.3'' \<noteq> None"
    and 2: "semver_parse ''1.2.3-rc.1'' \<noteq> None"
    and 3: "semver_parse ''1.2.3+build'' \<noteq> None"
    by (simp_all add: semver_parse_def SemVer_new_def js_trim_def is_space_def eval_defs)
  have s: "strip_v ''1.2.3'' = ''1.2.3''" "strip_v ''1.2.3-rc.1'' = ''1.2.3-rc.1''"
    "strip_v ''1.2.3+build'' = ''1.2.3+build''"
    by (simp_all add: strip_v_def)
  have l: "length ''1.2.3'' < MAX_LENGTH" "length ''1.2.3-rc.1'' < MAX_LENGTH"
    "length ''1.2.3+build'' < MAX_LENGTH"
    by (simp_all add: MAX_LENGTH_def)
  show ?thesis
    using getSemver_v_prefix [OF 1 s(1) l(1)] getSemver_v_prefix [OF 2 s(2) l(2)]
      getSemver_v_prefix [OF 3 s(3) l(3)]
    by simp
qed


subsection \<open>Evaluating \<open>getSemver\<close>\<close>

text \<open>Definitions and equations to unfold when \<open>getSemver\<close> is evaluated on a given string.\<close>

lemmas getSemver_eval = getSemver_def semver_valid_eq eval_defs ParseVersion_JString
  js_split_limit_def section_eval token_eval assemble_def release_string_def
  firstThreeVersionPartsAreDigits_def firstThreeVersionPartsAreDigits_from.simps
  join_parts_def number_string_small show_nat.simps digit_char_simps

lemmas number_eval = number_string_def shortest_decimal_def shortest_from.simps round_double_def
  bit_length.simps exponent_form_def Let_def show_nat.simps digit_char_simps

text \<open>
  Numbers from \<open>2 ^ 53\<close> on: the token is rounded to a double, and the double prints with
  the fewest digits that identify it, in exponent form from \<open>10 ^ 21\<close> on.
\<close>

lemma number_string_examples:
  "number_string 9007199254740992 = ''9007199254740992''"
  "number_string 100000000000000000000 = ''100000000000000000000''"
  "number_string 1000000000000000000000 = ''1e+21''"
  by (simp_all add: number_eval)

lemma token_part_examples:
  "token_part ''9007199254740993'' = Num 9007199254740992"
  "token_part ''99999999999999999999'' = Num 100000000000000000000"
  "token_part ''1000000000000000000000'' = Num 1000000000000000000000"
  by (simp_all add: token_eval bit_length.simps Let_def)

subsection \<open>Tokens with a numeric prefix, later delimiters, the empty release\<close>

text \<open>
  Claim C3 says that a token is emitted as an integer only when it consists of digits,
  and as the unchanged string otherwise, naming \<^verbatim>\<open>"4a"\<close>. The program emits the integer
  \<open>4\<close> for \<^verbatim>\<open>"4a"\<close>: \<^verbatim>\<open>parseInt\<close> reads the longest run of leading digits and ignores
  what follows, and it reads a token such as \<^verbatim>\<open>"0x1f"\<close> in radix 16. The characters of
  the token after the run are lost.
\<close>

theorem ParseSection_prefix_number:
  "ParseSection (JString ''4a'') = Inr [Num 4]
   \<and> ParseSection (JString ''1.2.4a.0x1f'') = Inr [Num 1, Num 2, Num 4, Num 31]
   \<and> getSemver (JString ''1.2.4a'') = Inr ''1.2.4''"
  by (simp add: ParseSection_JString getSemver_eval)


text \<open>
  Claim C2 says that only the first hyphen and the first plus sign after it split the
  input, and that the text after them stays in the later section, so that
  \<^verbatim>\<open>"1.0-alpha-2"\<close> has a prerelease covering \<^verbatim>\<open>"alpha-2"\<close>. The program calls
  \<^verbatim>\<open>split('-', 2)\<close> and \<^verbatim>\<open>split('+', 2)\<close>, which split at every occurrence and keep
  the first two pieces: the text from the second hyphen on, and from the second plus
  sign on, is not in the parsed version.
\<close>

theorem ParseVersion_later_delimiters:
  "ParseVersion (JString ''1.0-alpha-2'') =
     Inr \<lparr>Release = [Num 1, Num 0], Prerelease = [Str ''alpha''], BuildMetadata = []\<rparr>
   \<and> ParseVersion (JString ''1.0-a+b+c'') =
     Inr \<lparr>Release = [Num 1, Num 0], Prerelease = [Str ''a''], BuildMetadata = [Str ''b'']\<rparr>
   \<and> getSemver (JString ''1.0-alpha-2'') = Inr ''1.0.0-alpha''"
  by (simp add: getSemver_eval)


text \<open>
  Claim C4 describes the result for every input whose first release parts are all
  numbers: the first three joined by dots, padded with \<^verbatim>\<open>.0\<close> to exactly three
  components, the parts beyond the third after a hyphen, then the prerelease. With no
  release part at all the condition holds, and the program pads twice only (it tests
  \<^verbatim>\<open>length < 3\<close> and \<^verbatim>\<open>length < 2\<close>): an input that starts with a hyphen has an empty
  release and gives a result that starts with \<^verbatim>\<open>.0.0\<close>, which has no first component.
\<close>

theorem getSemver_empty_release:
  "ParseVersion (JString ''-alpha'') =
     Inr \<lparr>Release = [], Prerelease = [Str ''alpha''], BuildMetadata = []\<rparr>
   \<and> semver_valid ''-alpha'' = None
   \<and> firstThreeVersionPartsAreDigits []
   \<and> getSemver (JString ''-alpha'') = Inr ''.0.0-alpha''"
  by (simp add: getSemver_eval)


subsection \<open>Releases that do not start with three numbers\<close>

text \<open>
  Claim C7. For every input that is not blank, that \<^verbatim>\<open>semver.valid\<close> rejects, and whose
  first three release parts are not all numbers, the release sequence is not empty and
  the result is \<^verbatim>\<open>0.0.0\<close>, a hyphen and all release parts joined by dots (a number part
  as \<^verbatim>\<open>join\<close> prints the number, a string part as it is), followed by the prerelease
  and the build metadata when there are any. In particular \<^verbatim>\<open>"arbitrary text"\<close> gives
  \<^verbatim>\<open>"0.0.0-arbitrary.text"\<close>; the witness also has inputs with number parts, small and
  large.
\<close>

theorem getSemver_not_numeric:
  assumes "js_trim v \<noteq> []" and "semver_valid v = None"
    and "ParseVersion (JString v) = Inr sections"
    and "\<not> firstThreeVersionPartsAreDigits (Release sections)"
  shows "Release sections \<noteq> []
     \<and> getSemver (JString v) =
         Inr (''0.0.0'' @ ''-'' @ join_parts (Release sections)
              @ (if Prerelease sections \<noteq> [] then ''-'' @ join_parts (Prerelease sections) else [])
              @ (if BuildMetadata sections \<noteq> [] then ''+'' @ join_parts (BuildMetadata sections) else []))"
proof -
  have ne: "Release sections \<noteq> []"
    using assms(4) firstThree_empty by auto
  then show ?thesis
    using assms by (simp add: getSemver_def assemble_def release_string_def)
qed

theorem getSemver_not_numeric_witness:
  "getSemver (JString ''arbitrary text'') = Inr ''0.0.0-arbitrary.text''
   \<and> getSemver (JString ''a.1'') = Inr ''0.0.0-a.1''
   \<and> getSemver (JString ''v1.2-rc.3+b.45'') = Inr ''0.0.0-v1.2-rc.3+b.45''
   \<and> getSemver (JString ''a.9007199254740993'') = Inr ''0.0.0-a.9007199254740992''
   \<and> getSemver (JString ''a.99999999999999999999'') = Inr ''0.0.0-a.100000000000000000000''
   \<and> getSemver (JString ''a.1000000000000000000000'') = Inr ''0.0.0-a.1e+21''"
proof -
  have t: "js_trim ''arbitrary text'' \<noteq> []" "js_trim ''a.1'' \<noteq> []"
    "js_trim ''v1.2-rc.3+b.45'' \<noteq> []" "js_trim ''a.9007199254740993'' \<noteq> []"
    "js_trim ''a.99999999999999999999'' \<noteq> []" "js_trim ''a.1000000000000000000000'' \<noteq> []"
    by (simp_all add: js_trim_def is_space_def)
  have s: "semver_valid ''arbitrary text'' = None" "semver_valid ''a.1'' = None"
    "semver_valid ''v1.2-rc.3+b.45'' = None" "semver_valid ''a.9007199254740993'' = None"
    "semver_valid ''a.99999999999999999999'' = None"
    "semver_valid ''a.1000000000000000000000'' = None"
    by (simp_all add: semver_valid_eq eval_defs)
  have p1: "ParseVersion (JString ''arbitrary text'') =
      Inr \<lparr>Release = [Str ''arbitrary'', Str ''text''], Prerelease = [], BuildMetadata = []\<rparr>"
    and p2: "ParseVersion (JString ''a.1'') =
      Inr \<lparr>Release = [Str ''a'', Num 1], Prerelease = [], BuildMetadata = []\<rparr>"
    and p3: "ParseVersion (JString ''v1.2-rc.3+b.45'') =
      Inr \<lparr>Release = [Str ''v1'', Num 2], Prerelease = [Str ''rc'', Num 3],
          BuildMetadata = [Str ''b'', Num 45]\<rparr>"
    and p4: "ParseVersion (JString ''a.9007199254740993'') =
      Inr \<lparr>Release = [Str ''a'', Num 9007199254740992], Prerelease = [], BuildMetadata = []\<rparr>"
    and p5: "ParseVersion (JString ''a.99999999999999999999'') =
      Inr \<lparr>Release = [Str ''a'', Num 100000000000000000000], Prerelease = [],
          BuildMetadata = []\<rparr>"
    and p6: "ParseVersion (JString ''a.1000000000000000000000'') =
      Inr \<lparr>Release = [Str ''a'', Num 1000000000000000000000], Prerelease = [],
          BuildMetadata = []\<rparr>"
    by (simp_all add: ParseVersion_JString js_split_limit_def section_eval token_eval
          bit_length.simps Let_def)
  have f: "\<not> firstThreeVersionPartsAreDigits [Str a, p]" for a p
    by (simp add: firstThreeVersionPartsAreDigits_def
          firstThreeVersionPartsAreDigits_from.simps)
  have g: "\<not> firstThreeVersionPartsAreDigits (Release \<lparr>Release = [Str a, p], Prerelease = q,
      BuildMetadata = r\<rparr>)" for a p q r
    using f by simp
  show ?thesis
    using getSemver_not_numeric [OF t(1) s(1) p1 g] getSemver_not_numeric [OF t(2) s(2) p2 g]
      getSemver_not_numeric [OF t(3) s(3) p3 g] getSemver_not_numeric [OF t(4) s(4) p4 g]
      getSemver_not_numeric [OF t(5) s(5) p5 g] getSemver_not_numeric [OF t(6) s(6) p6 g]
    by (simp add: join_parts_def number_string_examples number_string_small show_nat.simps
          digit_char_simps)
qed


subsection \<open>The parts of a section are identifiers\<close>

lemma js_split_no_sep_id: "sep \<notin> set x \<Longrightarrow> js_split sep x = [x]"
  by (induction x) auto

lemma js_split_append_sep: "js_split sep (x @ sep # y) = js_split sep x @ js_split sep y"
proof (induction x)
  case Nil
  show ?case by simp
next
  case (Cons c x)
  obtain t ts where "js_split sep x = t # ts"
    using js_split_nonempty [of sep x] by (cases "js_split sep x") auto
  with Cons show ?case by simp
qed

lemma js_split_append_other:
  assumes "c \<noteq> sep"
  shows "js_split sep (x @ c # y) =
           butlast (js_split sep x) @ [last (js_split sep x) @ c # hd (js_split sep y)]
           @ tl (js_split sep y)"
proof (induction x)
  case Nil
  obtain t ts where "js_split sep y = t # ts"
    using js_split_nonempty [of sep y] by (cases "js_split sep y") auto
  with assms show ?case by simp
next
  case (Cons d x)
  obtain t ts where x: "js_split sep x = t # ts"
    using js_split_nonempty [of sep x] by (cases "js_split sep x") auto
  show ?case
  proof (cases "d = sep")
    case True
    with Cons x show ?thesis by simp
  next
    case False
    show ?thesis
    proof (cases "ts = []")
      case True
      with Cons x False show ?thesis by simp
    next
      case ne: False
      with Cons x False show ?thesis by simp
    qed
  qed
qed

lemma show_nat_numeric_id: "numeric_identifier (show_nat n) \<and> dec_val (show_nat n) = n"
proof (induction n rule: show_nat.induct)
  case (1 n)
  show ?case
  proof (cases "n < 10")
    case True
    then have "show_nat n = [digit_char n]"
      by (subst show_nat.simps) simp
    moreover have "is_digit (digit_char n)" and "digit_val (digit_char n) = n"
      using True by (simp_all add: is_digit_digit_char digit_val_digit_char)
    ultimately show ?thesis
      by (simp add: numeric_identifier_def dec_val_single)
  next
    case False
    then have s: "show_nat n = show_nat (n div 10) @ [digit_char (n mod 10)]"
      by (subst show_nat.simps) simp
    have IH: "numeric_identifier (show_nat (n div 10))" "dec_val (show_nat (n div 10)) = n div 10"
      using 1 False by simp_all
    have "n div 10 \<noteq> 0"
      using False by simp
    then have "show_nat (n div 10) \<noteq> ''0''"
      using IH(2) dec_val_0 by metis
    then have nz: "show_nat (n div 10) \<noteq> []" "list_all is_digit (show_nat (n div 10))"
      "hd (show_nat (n div 10)) \<noteq> CHR ''0''"
      using IH(1) by (simp_all add: numeric_identifier_iff)
    have d: "is_digit (digit_char (n mod 10))" "digit_val (digit_char (n mod 10)) = n mod 10"
      by (simp_all add: is_digit_digit_char digit_val_digit_char)
    have "numeric_identifier (show_nat n)"
      unfolding numeric_identifier_iff s using nz d(1) by simp
    moreover have "dec_val (show_nat n) = n"
      unfolding s dec_val_snoc using IH(2) d(2) by simp
    ultimately show ?thesis by simp
  qed
qed

lemma is_digit_not_space: "is_digit c \<Longrightarrow> \<not> is_space c"
  by (auto simp: is_digit_def is_space_def)

lemma is_digit_not_sign: "is_digit c \<Longrightarrow> c \<noteq> CHR ''-'' \<and> c \<noteq> CHR ''+'' \<and> c \<noteq> CHR ''x'' \<and> c \<noteq> CHR ''X'' \<and> c \<noteq> CHR ''.''"
  by (auto simp: is_digit_def)

lemma parseInt_digits:
  assumes "t \<noteq> []" and "list_all is_digit t"
  shows "parseInt t = (case round_double (dec_val t) of
                         None \<Rightarrow> Some PlusInfinity
                       | Some m \<Rightarrow> Some (Finite (int m)))"
proof -
  obtain c cs where t: "t = c # cs"
    using assms(1) by (cases t) auto
  have c: "is_digit c" and cs: "list_all is_digit cs"
    using assms(2) t by simp_all
  have sp: "dropWhile is_space t = t"
    using c is_digit_not_space t by simp
  have sg: "c \<noteq> CHR ''-''" "c \<noteq> CHR ''+''"
    using is_digit_not_sign [OF c] by simp_all
  have hex: "\<not> (case t of a # b # _ \<Rightarrow> a = CHR ''0'' \<and> (b = CHR ''x'' \<or> b = CHR ''X'') | _ \<Rightarrow> False)"
    using cs t is_digit_not_sign by (cases cs) auto
  have tw: "takeWhile is_digit t = t"
    using assms(2) by (simp add: list_all_iff)
  show ?thesis
    unfolding parseInt_def sp Let_def
    using sg hex tw t by (simp split: option.splits)
qed

text \<open>
  What the tokenizer does with a token of digits only, and with a token that starts
  with a letter: the number nearest to the integer in the first case (the integer itself
  below \<open>2 ^ 53\<close>, \<^verbatim>\<open>Infinity\<close> when there is no such number), the token itself in the
  second.
\<close>

lemma token_part_digit_run:
  "t \<noteq> [] \<Longrightarrow> list_all is_digit t \<Longrightarrow>
     token_part t = (case round_double (dec_val t) of None \<Rightarrow> NumInfinity | Some m \<Rightarrow> Num m)"
  by (simp add: token_part_def parseInt_digits split: option.splits)

lemma token_part_digits:
  "t \<noteq> [] \<Longrightarrow> list_all is_digit t \<Longrightarrow> dec_val t < 2 ^ 53 \<Longrightarrow> token_part t = Num (dec_val t)"
  by (simp add: token_part_digit_run round_double_small)

lemma token_part_letter_first:
  assumes "is_letter c"
  shows "token_part (c # cs) = Str (c # cs)"
proof -
  have "\<not> is_space c" "c \<noteq> CHR ''-''" "c \<noteq> CHR ''+''" "c \<noteq> CHR ''0''" "\<not> is_digit c"
    using assms by (auto simp: is_letter_simps is_space_def is_digit_def)
  then have "parseInt (c # cs) = None"
    by (cases cs) (simp_all add: parseInt_def)
  then show ?thesis
    by (simp add: token_part_def)
qed

lemma nonnumeric_identifierI:
  assumes "list_all is_id_char t" and "\<not> list_all is_digit t"
  shows "nonnumeric_identifier t"
proof -
  obtain c cs where d: "dropWhile is_digit t = c # cs"
    using assms(2) by (cases "dropWhile is_digit t") (auto simp: list_all_iff)
  then have "\<not> is_digit c"
    using hd_dropWhile [of is_digit t] by simp
  moreover have "set (c # cs) \<subseteq> set t"
    using d set_dropWhileD [of _ is_digit t] by auto
  then have "is_id_char c" and "list_all is_id_char cs"
    using assms(1) by (auto simp: list_all_iff)
  ultimately show ?thesis
    using d by (auto simp: nonnumeric_identifier_def is_id_char_def)
qed

text \<open>
  The printed form of a part is one prerelease identifier without a dot, unless the part
  is a number that prints in exponent form, with a plus sign.
\<close>

lemma show_nat_digits: "list_all is_digit (show_nat n)"
  using show_nat_numeric_id [of n] numeric_identifier_digits by blast

lemma show_nat_no_dot: "CHR ''.'' \<notin> set (show_nat n)"
  using show_nat_digits [of n] is_digit_not_sign by (auto simp: list_all_iff)

lemma Infinity_identifier:
  "prerelease_identifier ''Infinity'' \<and> CHR ''.'' \<notin> set ''Infinity''"
  by (simp add: eval_defs)

lemma Num_identifier:
  "CHR ''+'' \<in> set (part_string (Num n))
     \<or> (numeric_identifier (part_string (Num n)) \<and> CHR ''.'' \<notin> set (part_string (Num n)))"
  using number_string_cases [of n] show_nat_numeric_id [of "shortest_decimal n"]
    show_nat_no_dot [of "shortest_decimal n"]
  by auto

lemma token_part_identifier:
  assumes "t \<noteq> []" and "list_all is_id_char t"
  shows "CHR ''+'' \<in> set (part_string (token_part t))
     \<or> (prerelease_identifier (part_string (token_part t))
         \<and> CHR ''.'' \<notin> set (part_string (token_part t)))"
proof (cases "token_part t")
  case (Num n)
  then show ?thesis
    using Num_identifier [of n] by (auto simp: prerelease_identifier_def)
next
  case NumInfinity
  then show ?thesis
    using Infinity_identifier by simp
next
  case (Str s)
  then have s: "s = t"
    by (auto simp: token_part_def split: option.splits js_number.splits if_splits)
  have "\<not> list_all is_digit t"
  proof
    assume "list_all is_digit t"
    then have "token_part t = (case round_double (dec_val t) of None \<Rightarrow> NumInfinity | Some m \<Rightarrow> Num m)"
      using assms(1) by (simp add: token_part_digit_run)
    then show False
      using Str by (simp split: option.splits)
  qed
  then have "nonnumeric_identifier t"
    using assms(2) by (simp add: nonnumeric_identifierI)
  moreover have "CHR ''.'' \<notin> set t"
    using assms(2) by (auto simp: list_all_iff is_id_char_def is_digit_def is_letter_simps)
  ultimately show ?thesis
    using Str s by (simp add: prerelease_identifier_def)
qed

lemma section_token_chars:
  assumes "t \<in> set (js_split CHR ''.'' (replace_invalid s))"
  shows "list_all is_id_char t"
proof -
  have "\<forall>c \<in> set t. valid_section_char c \<and> c \<noteq> CHR ''.''"
    using assms js_split_chars [of t "CHR ''.''"] js_split_no_sep [of t "CHR ''.''"]
      replace_invalid_valid by blast
  then show ?thesis
    by (auto simp: list_all_iff valid_section_char_def is_id_char_def)
qed

lemma section_parts_identifiers:
  assumes "p \<in> set (section_parts (replace_invalid s))"
  shows "CHR ''+'' \<in> set (part_string p)
     \<or> (prerelease_identifier (part_string p) \<and> CHR ''.'' \<notin> set (part_string p))"
proof -
  define toks where "toks = js_split CHR ''.'' (replace_invalid s)"
  have ne: "toks \<noteq> []"
    by (simp add: toks_def js_split_nonempty)
  have zero: "prerelease_identifier (part_string (Num 0)) \<and> CHR ''.'' \<notin> set (part_string (Num 0))"
    using show_nat_numeric_id [of 0] show_nat_no_dot [of 0]
    by (simp add: prerelease_identifier_def number_string_small)
  have tok: "\<And>t. t \<in> set toks \<Longrightarrow> t \<noteq> [] \<Longrightarrow>
      CHR ''+'' \<in> set (part_string (token_part t))
      \<or> (prerelease_identifier (part_string (token_part t))
          \<and> CHR ''.'' \<notin> set (part_string (token_part t)))"
    using section_token_chars token_part_identifier by (simp add: toks_def)
  have "p \<in> set (concat (map (\<lambda>t. if t = [] then [Num 0] else [token_part t]) (butlast toks)))
        \<or> (last toks \<noteq> [] \<and> p = token_part (last toks))"
    using assms unfolding section_parts_tokens toks_def [symmetric]
    by (auto split: if_splits)
  then show ?thesis
  proof
    assume "p \<in> set (concat (map (\<lambda>t. if t = [] then [Num 0] else [token_part t]) (butlast toks)))"
    then obtain t where t: "t \<in> set (butlast toks)"
      and p: "p \<in> set (if t = [] then [Num 0] else [token_part t])"
      unfolding set_concat set_map by blast
    show ?thesis
    proof (cases "t = []")
      case True
      with p zero show ?thesis by simp
    next
      case False
      with p have "p = token_part t" by simp
      then show ?thesis
        using tok [of t] in_set_butlastD [OF t] False by simp
    qed
  next
    assume "last toks \<noteq> [] \<and> p = token_part (last toks)"
    then show ?thesis
      using tok [of "last toks"] ne by simp
  qed
qed

text \<open>The printed form of every part is in the joined string.\<close>

lemma js_join_contains: "t \<in> set ts \<Longrightarrow> set t \<subseteq> set (js_join sep ts)"
  by (induction sep ts rule: js_join.induct) auto

lemma join_parts_contains: "p \<in> set ps \<Longrightarrow> set (part_string p) \<subseteq> set (join_parts ps)"
  unfolding join_parts_def by (rule js_join_contains) simp

text \<open>Joined parts split back into their printed forms.\<close>

lemma js_split_join:
  assumes "ts \<noteq> []" and "\<forall>t \<in> set ts. sep \<notin> set t"
  shows "js_split sep (js_join [sep] ts) = ts"
  using assms
proof (induction ts)
  case Nil
  then show ?case by simp
next
  case (Cons x ts)
  show ?case
  proof (cases ts)
    case Nil
    with Cons.prems show ?thesis
      by (simp add: js_split_no_sep_id)
  next
    case (Cons y ys)
    then have "js_split sep (js_join [sep] ts) = ts"
      using Cons.IH Cons.prems by simp
    moreover have "js_join [sep] (x # ts) = x @ sep # js_join [sep] ts"
      using Cons by simp
    ultimately show ?thesis
      using Cons.prems by (simp add: js_split_append_sep js_split_no_sep_id)
  qed
qed

lemma join_parts_identifiers:
  assumes "ps \<noteq> []"
    and "\<forall>p \<in> set ps. prerelease_identifier (part_string p) \<and> CHR ''.'' \<notin> set (part_string p)"
  shows "list_all prerelease_identifier (js_split CHR ''.'' (join_parts ps))"
proof -
  have "js_split CHR ''.'' (join_parts ps) = map part_string ps"
    unfolding join_parts_def using assms by (intro js_split_join) auto
  then show ?thesis
    using assms(2) by (simp add: list_all_iff)
qed

lemma hyphen_identifiers:
  assumes "list_all prerelease_identifier (js_split CHR ''.'' x)"
    and "list_all prerelease_identifier (js_split CHR ''.'' y)"
  shows "list_all prerelease_identifier (js_split CHR ''.'' (x @ CHR ''-'' # y))"
proof -
  define sx where "sx = js_split CHR ''.'' x"
  define sy where "sy = js_split CHR ''.'' y"
  have ne: "sx \<noteq> []" "sy \<noteq> []"
    by (simp_all add: sx_def sy_def js_split_nonempty)
  have "prerelease_identifier (last sx)" and "prerelease_identifier (hd sy)"
    using assms ne by (simp_all add: sx_def sy_def list_all_iff)
  then have "list_all is_id_char (last sx @ CHR ''-'' # hd sy)"
    using prerelease_identifier_chars by (simp add: is_id_char_def)
  moreover have "\<not> list_all is_digit (last sx @ CHR ''-'' # hd sy)"
    by (simp add: is_digit_def)
  ultimately have mid: "prerelease_identifier (last sx @ CHR ''-'' # hd sy)"
    by (simp add: prerelease_identifier_def nonnumeric_identifierI)
  have "\<forall>t \<in> set (butlast sx). prerelease_identifier t"
    using assms(1) in_set_butlastD by (fastforce simp: sx_def list_all_iff)
  moreover have "\<forall>t \<in> set (tl sy). prerelease_identifier t"
    using assms(2) list.set_sel(2) [OF ne(2)] by (auto simp: sy_def list_all_iff)
  ultimately show ?thesis
    using mid by (auto simp: js_split_append_other sx_def sy_def list_all_iff)
qed


subsection \<open>Results that \<open>semver.valid\<close> accepts\<close>

lemma takeWhile_append_sep:
  "sep \<notin> set x \<Longrightarrow> takeWhile (\<lambda>c. c \<noteq> sep) (x @ sep # y) = x"
  by (induction x) auto

lemma dropWhile_append_sep:
  "sep \<notin> set x \<Longrightarrow> dropWhile (\<lambda>c. c \<noteq> sep) (x @ sep # y) = sep # y"
  by (induction x) auto

lemma dropWhile_all: "x \<notin> set s \<Longrightarrow> dropWhile (\<lambda>c. c \<noteq> x) s = []"
  by (induction s) auto

lemma numeric_identifier_chars:
  assumes "numeric_identifier a"
  shows "a \<noteq> [] \<and> CHR ''.'' \<notin> set a \<and> CHR ''-'' \<notin> set a \<and> CHR ''+'' \<notin> set a
     \<and> strip_v (a @ s) = a @ s"
proof -
  have d: "list_all is_digit a" and ne: "a \<noteq> []"
    using assms numeric_identifier_digits by (auto simp: numeric_identifier_def)
  then have "is_digit (hd a)"
    by (cases a) auto
  then have "hd a \<noteq> CHR ''v''"
    by (auto simp: is_digit_def)
  then have "strip_v (a @ s) = a @ s"
    using ne by (cases a) (auto simp: strip_v_def)
  then show ?thesis
    using d ne is_digit_not_sign by (auto simp: list_all_iff)
qed

lemma prerelease_no_plus:
  assumes "list_all prerelease_identifier (js_split CHR ''.'' p)"
  shows "CHR ''+'' \<notin> set p"
proof -
  have "\<forall>t \<in> set (js_split CHR ''.'' p). \<forall>c \<in> set t. c \<noteq> CHR ''+''"
    using assms prerelease_identifier_chars
    by (fastforce simp: list_all_iff is_id_char_def is_digit_def is_letter_simps)
  then have "\<forall>c \<in> set p. c \<noteq> CHR ''+''"
    by (rule split_all_chars) simp
  then show ?thesis by auto
qed

text \<open>A string built from three numeric identifiers and a prerelease matches.\<close>

lemma match_FULL_build:
  assumes "numeric_identifier a" and "numeric_identifier b" and "numeric_identifier c"
    and "\<forall>p. pre = Some p \<longrightarrow> list_all prerelease_identifier (js_split CHR ''.'' p)"
  shows "match_FULL (a @ ''.'' @ b @ ''.'' @ c @ (case pre of None \<Rightarrow> [] | Some p \<Rightarrow> CHR ''-'' # p))
           = Some (a, b, c, pre, None)"
proof -
  define main where "main = a @ CHR ''.'' # b @ CHR ''.'' # c"
  define r where "r = main @ (case pre of None \<Rightarrow> [] | Some p \<Rightarrow> CHR ''-'' # p)"
  note ca = numeric_identifier_chars [OF assms(1)] and cb = numeric_identifier_chars [OF assms(2)]
    and cc = numeric_identifier_chars [OF assms(3)]
  have main_chars: "CHR ''-'' \<notin> set main" "CHR ''+'' \<notin> set main"
    using ca cb cc by (simp_all add: main_def)
  have strip: "strip_v r = r"
    using ca by (simp add: r_def main_def)
  have noplus: "CHR ''+'' \<notin> set r"
    using main_chars assms(4) prerelease_no_plus by (cases pre) (auto simp: r_def)
  have tw: "takeWhile (\<lambda>c. c \<noteq> CHR ''+'') r = r" and dw: "dropWhile (\<lambda>c. c \<noteq> CHR ''+'') r = []"
    using noplus by (simp_all add: takeWhile_all dropWhile_all)
  have tm: "takeWhile (\<lambda>c. c \<noteq> CHR ''-'') r = main"
    and dm: "(case dropWhile (\<lambda>c. c \<noteq> CHR ''-'') r of [] \<Rightarrow> None | _ # p \<Rightarrow> Some p) = pre"
    using main_chars
    by (cases pre; simp add: r_def takeWhile_all dropWhile_all takeWhile_append_sep
          dropWhile_append_sep)+
  have sp: "js_split CHR ''.'' main = [a, b, c]"
    using ca cb cc by (simp add: main_def js_split_append_sep js_split_no_sep_id)
  have "match_FULL r = Some (a, b, c, pre, None)"
    unfolding match_FULL_def Let_def strip tw dw tm dm sp
    using assms by (auto split: option.splits)
  then show ?thesis
    by (simp add: r_def main_def)
qed

lemma canonical_valid:
  assumes "r = a @ ''.'' @ b @ ''.'' @ c @ (case pre of None \<Rightarrow> [] | Some p \<Rightarrow> CHR ''-'' # p)"
    and "numeric_identifier a" and "numeric_identifier b" and "numeric_identifier c"
    and "\<forall>p. pre = Some p \<longrightarrow> list_all prerelease_identifier (js_split CHR ''.'' p)"
    and "length r \<le> MAX_LENGTH"
    and "list_all (\<lambda>t. dec_val t \<le> MAX_SAFE_INTEGER)
           (js_split CHR ''.'' (takeWhile (\<lambda>c. c \<noteq> CHR ''-'') r))"
  shows "semver_valid r = Some r"
proof -
  have m: "match_FULL r = Some (a, b, c, pre, None)"
    unfolding assms(1) using assms(2-5) by (rule match_FULL_build)
  note g = match_FULL_groups [OF m]
  have tw: "takeWhile (\<lambda>c. c \<noteq> CHR ''+'') (strip_v r) = r"
    using g assms(1) by simp
  define main where "main = a @ CHR ''.'' # b @ CHR ''.'' # c"
  note ca = numeric_identifier_chars [OF assms(2)] and cb = numeric_identifier_chars [OF assms(3)]
    and cc = numeric_identifier_chars [OF assms(4)]
  have r': "r = main @ (case pre of None \<Rightarrow> [] | Some p \<Rightarrow> CHR ''-'' # p)"
    using assms(1) by (simp add: main_def)
  have "CHR ''-'' \<notin> set main"
    using ca cb cc by (simp add: main_def)
  then have "takeWhile (\<lambda>c. c \<noteq> CHR ''-'') r = main"
    unfolding r'
    by (cases pre) (simp_all add: takeWhile_all takeWhile_append_sep)
  moreover have "js_split CHR ''.'' main = [a, b, c]"
    using ca cb cc by (simp add: main_def js_split_append_sep js_split_no_sep_id)
  ultimately have "dec_val a \<le> MAX_SAFE_INTEGER \<and> dec_val b \<le> MAX_SAFE_INTEGER
      \<and> dec_val c \<le> MAX_SAFE_INTEGER"
    using assms(7) by simp
  then show ?thesis
    using m tw assms(6) by (simp add: semver_valid_eq)
qed

lemma numeric_identifier_0: "numeric_identifier ''0''"
  by (simp add: numeric_identifier_def)

text \<open>
  A release part that is a number prints as a numeric identifier or as \<^verbatim>\<open>Infinity\<close>,
  when it prints without a plus sign.
\<close>

lemma head_part_shape:
  assumes "prerelease_identifier (part_string p) \<and> CHR ''.'' \<notin> set (part_string p)"
    and "\<forall>s. p \<noteq> Str s"
  shows "part_string p = ''Infinity'' \<or> numeric_identifier (part_string p)"
proof (cases p)
  case (Num n)
  have "list_all is_id_char (part_string p)"
    using assms(1) prerelease_identifier_chars by blast
  then have "CHR ''+'' \<notin> set (part_string p)"
    by (auto simp: list_all_iff is_id_char_def is_digit_def is_letter_simps)
  then show ?thesis
    using Num Num_identifier [of n] by auto
next
  case NumInfinity
  then show ?thesis by simp
next
  case (Str s)
  with assms(2) show ?thesis by simp
qed

lemma head_chars:
  assumes "a = ''Infinity'' \<or> numeric_identifier a"
  shows "a \<noteq> [] \<and> CHR ''.'' \<notin> set a \<and> CHR ''-'' \<notin> set a \<and> CHR ''+'' \<notin> set a"
  using assms numeric_identifier_chars [of a "[]"] by auto

text \<open>The release part of the result, for a release sequence that is not empty.\<close>

lemma release_string_shape:
  assumes "rel \<noteq> []"
    and "\<forall>p \<in> set rel. prerelease_identifier (part_string p) \<and> CHR ''.'' \<notin> set (part_string p)"
  shows "\<exists>a b c pre.
           release_string rel = a @ ''.'' @ b @ ''.'' @ c @ (case pre of None \<Rightarrow> [] | Some p \<Rightarrow> CHR ''-'' # p)
           \<and> (a = ''Infinity'' \<or> numeric_identifier a)
           \<and> (b = ''Infinity'' \<or> numeric_identifier b)
           \<and> (c = ''Infinity'' \<or> numeric_identifier c)
           \<and> (\<forall>p. pre = Some p \<longrightarrow> list_all prerelease_identifier (js_split CHR ''.'' p))"
proof (cases "firstThreeVersionPartsAreDigits rel")
  case False
  have "release_string rel = ''0'' @ ''.'' @ ''0'' @ ''.'' @ ''0''
          @ (case Some (join_parts rel) of None \<Rightarrow> [] | Some p \<Rightarrow> CHR ''-'' # p)"
    using False assms(1) by (simp add: release_string_def)
  moreover have "list_all prerelease_identifier (js_split CHR ''.'' (join_parts rel))"
    using assms by (rule join_parts_identifiers)
  ultimately show ?thesis
    using numeric_identifier_0 by blast
next
  case True
  then have nums: "\<forall>i < min (length rel) 3. \<forall>s. rel ! i \<noteq> Str s"
    by (simp add: firstThree_iff)
  obtain p1 r1 where rel: "rel = p1 # r1"
    using assms(1) by (cases rel) auto
  have "\<forall>s. p1 \<noteq> Str s"
    using nums [rule_format, of 0] rel by simp
  then have a: "part_string p1 = ''Infinity'' \<or> numeric_identifier (part_string p1)"
    using assms(2) rel by (intro head_part_shape) simp_all
  show ?thesis
  proof (cases r1)
    case Nil
    then have "release_string rel = part_string p1 @ ''.'' @ ''0'' @ ''.'' @ ''0''
          @ (case None of None \<Rightarrow> [] | Some p \<Rightarrow> CHR ''-'' # p)"
      using True rel by (simp add: release_string_def join_parts_def)
    then show ?thesis
      using numeric_identifier_0 a by blast
  next
    case r1: (Cons p2 r2)
    have "\<forall>s. p2 \<noteq> Str s"
      using nums [rule_format, of 1] rel r1 by simp
    then have b: "part_string p2 = ''Infinity'' \<or> numeric_identifier (part_string p2)"
      using assms(2) rel r1 by (intro head_part_shape) simp_all
    show ?thesis
    proof (cases r2)
      case Nil
      then have "release_string rel = part_string p1 @ ''.'' @ part_string p2 @ ''.'' @ ''0''
          @ (case None of None \<Rightarrow> [] | Some p \<Rightarrow> CHR ''-'' # p)"
        using True rel r1 by (simp add: release_string_def join_parts_def)
      then show ?thesis
        using numeric_identifier_0 a b by blast
    next
      case r2: (Cons p3 r3)
      have "\<forall>s. p3 \<noteq> Str s"
        using nums [rule_format, of 2] rel r1 r2 by simp
      then have c: "part_string p3 = ''Infinity'' \<or> numeric_identifier (part_string p3)"
        using assms(2) rel r1 r2 by (intro head_part_shape) simp_all
      show ?thesis
      proof (cases r3)
        case Nil
        then have "release_string rel =
            part_string p1 @ ''.'' @ part_string p2 @ ''.'' @ part_string p3
            @ (case None of None \<Rightarrow> [] | Some p \<Rightarrow> CHR ''-'' # p)"
          using True rel r1 r2 by (simp add: release_string_def join_parts_def)
        then show ?thesis
          using a b c by blast
      next
        case (Cons p4 r4)
        then have "release_string rel =
            part_string p1 @ ''.'' @ part_string p2 @ ''.'' @ part_string p3
            @ (case Some (join_parts r3) of None \<Rightarrow> [] | Some p \<Rightarrow> CHR ''-'' # p)"
          using True rel r1 r2 by (simp add: release_string_def join_parts_def)
        moreover have "list_all prerelease_identifier (js_split CHR ''.'' (join_parts r3))"
          using assms(2) rel r1 r2 Cons by (intro join_parts_identifiers) auto
        ultimately show ?thesis
          using a b c by blast
      qed
    qed
  qed
qed

lemma prerelease_suffix_shape:
  assumes "\<forall>p. pre = Some p \<longrightarrow> list_all prerelease_identifier (js_split CHR ''.'' p)"
    and "\<forall>p \<in> set ps. prerelease_identifier (part_string p) \<and> CHR ''.'' \<notin> set (part_string p)"
  shows "\<exists>pre'. (case pre of None \<Rightarrow> [] | Some p \<Rightarrow> CHR ''-'' # p)
                 @ (if length ps > 0 then ''-'' @ join_parts ps else [])
               = (case pre' of None \<Rightarrow> [] | Some p \<Rightarrow> CHR ''-'' # p)
           \<and> (\<forall>p. pre' = Some p \<longrightarrow> list_all prerelease_identifier (js_split CHR ''.'' p))"
proof (cases "ps = []")
  case True
  then show ?thesis
    using assms(1) by (intro exI [of _ pre]) simp
next
  case False
  then have j: "list_all prerelease_identifier (js_split CHR ''.'' (join_parts ps))"
    using assms(2) by (rule join_parts_identifiers)
  show ?thesis
  proof (cases pre)
    case None
    then show ?thesis
      using False j by (intro exI [of _ "Some (join_parts ps)"]) simp
  next
    case (Some p)
    then have "list_all prerelease_identifier (js_split CHR ''.'' (p @ CHR ''-'' # join_parts ps))"
      using assms(1) j by (simp add: hyphen_identifiers)
    then show ?thesis
      using False Some by (intro exI [of _ "Some (p @ CHR ''-'' # join_parts ps)"]) simp
  qed
qed

lemma assemble_shape:
  assumes "Release sections \<noteq> []" and "BuildMetadata sections = []"
    and "\<forall>p \<in> set (Release sections) \<union> set (Prerelease sections).
           prerelease_identifier (part_string p) \<and> CHR ''.'' \<notin> set (part_string p)"
  shows "\<exists>a b c pre.
           assemble sections = a @ ''.'' @ b @ ''.'' @ c @ (case pre of None \<Rightarrow> [] | Some p \<Rightarrow> CHR ''-'' # p)
           \<and> (a = ''Infinity'' \<or> numeric_identifier a)
           \<and> (b = ''Infinity'' \<or> numeric_identifier b)
           \<and> (c = ''Infinity'' \<or> numeric_identifier c)
           \<and> (\<forall>p. pre = Some p \<longrightarrow> list_all prerelease_identifier (js_split CHR ''.'' p))"
proof -
  obtain a b c pre where
    rs: "release_string (Release sections) =
           a @ ''.'' @ b @ ''.'' @ c @ (case pre of None \<Rightarrow> [] | Some p \<Rightarrow> CHR ''-'' # p)"
    and ids: "a = ''Infinity'' \<or> numeric_identifier a" "b = ''Infinity'' \<or> numeric_identifier b"
      "c = ''Infinity'' \<or> numeric_identifier c"
    and pre: "\<forall>p. pre = Some p \<longrightarrow> list_all prerelease_identifier (js_split CHR ''.'' p)"
    using release_string_shape [of "Release sections"] assms(1,3) by auto
  obtain pre' where
    sfx: "(case pre of None \<Rightarrow> [] | Some p \<Rightarrow> CHR ''-'' # p)
            @ (if length (Prerelease sections) > 0 then ''-'' @ join_parts (Prerelease sections) else [])
          = (case pre' of None \<Rightarrow> [] | Some p \<Rightarrow> CHR ''-'' # p)"
    and pre': "\<forall>p. pre' = Some p \<longrightarrow> list_all prerelease_identifier (js_split CHR ''.'' p)"
    using prerelease_suffix_shape [OF pre, of "Prerelease sections"] assms(3) by auto
  have "assemble sections =
      a @ ''.'' @ b @ ''.'' @ c @ ((case pre of None \<Rightarrow> [] | Some p \<Rightarrow> CHR ''-'' # p)
            @ (if length (Prerelease sections) > 0 then ''-'' @ join_parts (Prerelease sections) else []))"
    using rs assms(2) by (simp add: assemble_def)
  then have "assemble sections =
      a @ ''.'' @ b @ ''.'' @ c @ (case pre' of None \<Rightarrow> [] | Some p \<Rightarrow> CHR ''-'' # p)"
    unfolding sfx .
  then show ?thesis
    using ids pre' by blast
qed


text \<open>
  Such a string whose components before the first hyphen are runs of digits has three
  numeric identifiers there.
\<close>

lemma shape_numeric:
  assumes "r = a @ ''.'' @ b @ ''.'' @ c @ (case pre of None \<Rightarrow> [] | Some p \<Rightarrow> CHR ''-'' # p)"
    and "a = ''Infinity'' \<or> numeric_identifier a"
    and "b = ''Infinity'' \<or> numeric_identifier b"
    and "c = ''Infinity'' \<or> numeric_identifier c"
    and "list_all (\<lambda>t. list_all is_digit t)
           (js_split CHR ''.'' (takeWhile (\<lambda>c. c \<noteq> CHR ''-'') r))"
  shows "numeric_identifier a \<and> numeric_identifier b \<and> numeric_identifier c"
proof -
  define main where "main = a @ CHR ''.'' # b @ CHR ''.'' # c"
  note ca = head_chars [OF assms(2)] and cb = head_chars [OF assms(3)]
    and cc = head_chars [OF assms(4)]
  have r': "r = main @ (case pre of None \<Rightarrow> [] | Some p \<Rightarrow> CHR ''-'' # p)"
    using assms(1) by (simp add: main_def)
  have "CHR ''-'' \<notin> set main"
    using ca cb cc by (simp add: main_def)
  then have "takeWhile (\<lambda>c. c \<noteq> CHR ''-'') r = main"
    unfolding r'
    by (cases pre) (simp_all add: takeWhile_all takeWhile_append_sep)
  moreover have "js_split CHR ''.'' main = [a, b, c]"
    using ca cb cc by (simp add: main_def js_split_append_sep js_split_no_sep_id)
  ultimately have "list_all is_digit a" "list_all is_digit b" "list_all is_digit c"
    using assms(5) by simp_all
  moreover have "\<not> list_all is_digit ''Infinity''"
    by (simp add: is_digit_def)
  ultimately show ?thesis
    using assms(2-4) by auto
qed


subsection \<open>Applying \<open>getSemver\<close> twice\<close>

lemma release_string_Nil: "release_string [] = ''.0.0''"
  by (simp add: release_string_def firstThree_empty join_parts_def)

lemma ParseVersion_identifiers:
  assumes "ParseVersion (JString v) = Inr sections"
  shows "\<forall>p \<in> set (Release sections) \<union> set (Prerelease sections).
           CHR ''+'' \<in> set (part_string p)
           \<or> (prerelease_identifier (part_string p) \<and> CHR ''.'' \<notin> set (part_string p))"
proof -
  define s1 where "s1 = js_split_limit CHR ''-'' 2 v ! 0"
  define s2 where "s2 = js_split_limit CHR ''+'' 2 (js_split_limit CHR ''-'' 2 v ! 1) ! 0"
  have rel: "Release sections = section_parts (replace_invalid s1)"
    and pre: "Prerelease sections = [] \<or> Prerelease sections = section_parts (replace_invalid s2)"
    using assms by (auto simp: ParseVersion_JString Let_def s1_def s2_def)
  show ?thesis
  proof
    fix p
    assume "p \<in> set (Release sections) \<union> set (Prerelease sections)"
    then have "p \<in> set (section_parts (replace_invalid s1))
        \<or> p \<in> set (section_parts (replace_invalid s2))"
      using rel pre by auto
    then show "CHR ''+'' \<in> set (part_string p)
        \<or> (prerelease_identifier (part_string p) \<and> CHR ''.'' \<notin> set (part_string p))"
      using section_parts_identifiers by blast
  qed
qed

text \<open>Every release part and every prerelease part is printed into the result.\<close>

lemma release_string_contains:
  assumes "p \<in> set rel"
  shows "set (part_string p) \<subseteq> set (release_string rel)"
proof (cases "firstThreeVersionPartsAreDigits rel")
  case False
  have "length rel > 0"
    using assms by (cases rel) auto
  then show ?thesis
    using False join_parts_contains [OF assms] by (auto simp: release_string_def)
next
  case True
  have "p \<in> set (take 3 rel) \<or> p \<in> set (drop 3 rel)"
    using assms append_take_drop_id [of 3 rel] set_append [of "take 3 rel" "drop 3 rel"] by auto
  then show ?thesis
  proof
    assume "p \<in> set (take 3 rel)"
    then have "set (part_string p) \<subseteq> set (join_parts (take (min (length rel) 3) rel))"
      by (intro join_parts_contains) (auto simp: min_def dest: in_set_takeD)
    then show ?thesis
      using True by (auto simp: release_string_def)
  next
    assume d: "p \<in> set (drop 3 rel)"
    then have "length rel > 3"
      by (cases "length rel > 3") auto
    then show ?thesis
      using True join_parts_contains [OF d] by (auto simp: release_string_def)
  qed
qed

lemma assemble_contains:
  assumes "p \<in> set (Release sections) \<union> set (Prerelease sections)"
  shows "set (part_string p) \<subseteq> set (assemble sections)"
proof (cases "p \<in> set (Release sections)")
  case True
  then show ?thesis
    using release_string_contains [of p "Release sections"] by (auto simp: assemble_def)
next
  case False
  then have p: "p \<in> set (Prerelease sections)"
    using assms by simp
  then have "length (Prerelease sections) > 0"
    by (cases "Prerelease sections") auto
  then show ?thesis
    using join_parts_contains [OF p] by (auto simp: assemble_def)
qed

text \<open>
  Claim C8, amended. The claim says that \<open>getSemver\<close> applied to its own result returns
  that result, for every input, because the fast path accepts every result unchanged.
  The fast path drops build metadata, and \<^verbatim>\<open>semver.valid\<close> rejects a result that is
  longer than 256 characters, or whose part before the first hyphen is not three numbers
  of at most \<^verbatim>\<open>Number.MAX_SAFE_INTEGER\<close> in digits: the result for an empty release
  sequence starts with a dot, and a release number can be printed as \<^verbatim>\<open>Infinity\<close> or in
  exponent form. What holds: whenever \<open>getSemver\<close> returns \<open>r\<close>, and \<open>r\<close> has no plus
  sign, has at most 256 characters, and every component between dots of \<open>r\<close> up to its
  first hyphen is a run of digits that is not empty and whose value is at most
  \<^verbatim>\<open>Number.MAX_SAFE_INTEGER\<close>, \<open>getSemver\<close> of \<open>r\<close> is \<open>r\<close>.
\<close>

theorem getSemver_idempotent:
  assumes "getSemver (JString v) = Inr r"
    and "CHR ''+'' \<notin> set r"
    and "length r \<le> MAX_LENGTH"
    and "list_all (\<lambda>t. t \<noteq> [] \<and> list_all is_digit t \<and> dec_val t \<le> MAX_SAFE_INTEGER)
           (js_split CHR ''.'' (takeWhile (\<lambda>c. c \<noteq> CHR ''-'') r))"
  shows "getSemver (JString r) = Inr r"
proof -
  have nb: "js_trim v \<noteq> []"
    using assms(1) by (auto simp: getSemver_def split: if_splits)
  have digits: "list_all (\<lambda>t. list_all is_digit t)
           (js_split CHR ''.'' (takeWhile (\<lambda>c. c \<noteq> CHR ''-'') r))"
    and bound: "list_all (\<lambda>t. dec_val t \<le> MAX_SAFE_INTEGER)
           (js_split CHR ''.'' (takeWhile (\<lambda>c. c \<noteq> CHR ''-'') r))"
    using assms(4) by (simp_all add: list_all_iff)
  have "\<exists>a b c pre.
           r = a @ ''.'' @ b @ ''.'' @ c @ (case pre of None \<Rightarrow> [] | Some p \<Rightarrow> CHR ''-'' # p)
           \<and> (a = ''Infinity'' \<or> numeric_identifier a)
           \<and> (b = ''Infinity'' \<or> numeric_identifier b)
           \<and> (c = ''Infinity'' \<or> numeric_identifier c)
           \<and> (\<forall>p. pre = Some p \<longrightarrow> list_all prerelease_identifier (js_split CHR ''.'' p))"
  proof (cases "semver_valid v")
    case (Some r')
    then have r: "r' = r"
      using assms(1) nb by (simp add: getSemver_def)
    obtain a b c pre bld where m: "match_FULL v = Some (a, b, c, pre, bld)"
      using Some by (cases "match_FULL v") (auto simp: semver_valid_eq)
    have "r = takeWhile (\<lambda>c. c \<noteq> CHR ''+'') (strip_v v)"
      using semver_valid_Some [OF Some] r by simp
    then show ?thesis
      using match_FULL_groups [OF m] by auto
  next
    case None
    obtain sections where pv: "ParseVersion (JString v) = Inr sections"
      by (simp add: ParseVersion_JString)
    have r: "r = assemble sections"
      using assms(1) nb None pv by (simp add: getSemver_def)
    have "Release sections \<noteq> []"
    proof
      assume "Release sections = []"
      then obtain s where "r = CHR ''.'' # s"
        by (simp add: r assemble_def release_string_Nil)
      then have "hd (js_split CHR ''.'' (takeWhile (\<lambda>c. c \<noteq> CHR ''-'') r)) = []"
        by simp
      moreover have "js_split CHR ''.'' (takeWhile (\<lambda>c. c \<noteq> CHR ''-'') r) \<noteq> []"
        by (rule js_split_nonempty)
      ultimately show False
        using assms(4) by (cases "js_split CHR ''.'' (takeWhile (\<lambda>c. c \<noteq> CHR ''-'') r)") auto
    qed
    moreover have "BuildMetadata sections = []"
    proof (rule ccontr)
      assume "BuildMetadata sections \<noteq> []"
      then have "CHR ''+'' \<in> set r"
        by (simp add: r assemble_def)
      with assms(2) show False by simp
    qed
    moreover have "\<forall>p \<in> set (Release sections) \<union> set (Prerelease sections).
           prerelease_identifier (part_string p) \<and> CHR ''.'' \<notin> set (part_string p)"
    proof
      fix p
      assume p: "p \<in> set (Release sections) \<union> set (Prerelease sections)"
      then have "CHR ''+'' \<notin> set (part_string p)"
        using assemble_contains [OF p] assms(2) r by auto
      then show "prerelease_identifier (part_string p) \<and> CHR ''.'' \<notin> set (part_string p)"
        using ParseVersion_identifiers [OF pv] p by blast
    qed
    ultimately show ?thesis
      unfolding r by (rule assemble_shape)
  qed
  then obtain a b c pre where
    r: "r = a @ ''.'' @ b @ ''.'' @ c @ (case pre of None \<Rightarrow> [] | Some p \<Rightarrow> CHR ''-'' # p)"
    and w: "a = ''Infinity'' \<or> numeric_identifier a" "b = ''Infinity'' \<or> numeric_identifier b"
      "c = ''Infinity'' \<or> numeric_identifier c"
    and pre: "\<forall>p. pre = Some p \<longrightarrow> list_all prerelease_identifier (js_split CHR ''.'' p)"
    by blast
  have "numeric_identifier a \<and> numeric_identifier b \<and> numeric_identifier c"
    using r w digits by (rule shape_numeric)
  then have "semver_valid r = Some r"
    using r pre assms(3) bound by (intro canonical_valid [of r a b c pre]) simp_all
  then show ?thesis
    by (rule getSemver_valid)
qed

theorem getSemver_idempotent_witness:
  "getSemver (JString ''1.2.3.4-rc1'') = Inr ''1.2.3-4-rc1''
   \<and> getSemver (JString ''1.2.3-4-rc1'') = Inr ''1.2.3-4-rc1''
   \<and> getSemver (JString ''arbitrary text'') = Inr ''0.0.0-arbitrary.text''
   \<and> getSemver (JString ''0.0.0-arbitrary.text'') = Inr ''0.0.0-arbitrary.text''"
proof -
  have 1: "getSemver (JString ''1.2.3.4-rc1'') = Inr ''1.2.3-4-rc1''"
    by (simp add: getSemver_eval)
  have 2: "getSemver (JString ''arbitrary text'') = Inr ''0.0.0-arbitrary.text''"
    by (simp add: getSemver_eval)
  have b1: "list_all (\<lambda>t. t \<noteq> [] \<and> list_all is_digit t \<and> dec_val t \<le> MAX_SAFE_INTEGER)
           (js_split CHR ''.'' (takeWhile (\<lambda>c. c \<noteq> CHR ''-'') ''1.2.3-4-rc1''))"
    and b2: "list_all (\<lambda>t. t \<noteq> [] \<and> list_all is_digit t \<and> dec_val t \<le> MAX_SAFE_INTEGER)
           (js_split CHR ''.'' (takeWhile (\<lambda>c. c \<noteq> CHR ''-'') ''0.0.0-arbitrary.text''))"
    by (simp_all add: is_digit_def dec_val_def digit_val_def MAX_SAFE_INTEGER_def)
  have "getSemver (JString ''1.2.3-4-rc1'') = Inr ''1.2.3-4-rc1''"
    using getSemver_idempotent [OF 1 _ _ b1] by (simp add: MAX_LENGTH_def)
  moreover have "getSemver (JString ''0.0.0-arbitrary.text'') = Inr ''0.0.0-arbitrary.text''"
    using getSemver_idempotent [OF 2 _ _ b2] by (simp add: MAX_LENGTH_def)
  ultimately show ?thesis
    using 1 2 by simp
qed

text \<open>
  Claim C8 as stated fails for this result with build metadata: the second application
  drops it.
\<close>

theorem getSemver_not_idempotent:
  "getSemver (JString ''1.2-a+b'') = Inr ''1.2.0-a+b''
   \<and> getSemver (JString ''1.2.0-a+b'') = Inr ''1.2.0-a''
   \<and> getSemver (JString ''1.2.0-a+b'') \<noteq> getSemver (JString ''1.2-a+b'')"
proof -
  have 1: "getSemver (JString ''1.2-a+b'') = Inr ''1.2.0-a+b''"
    by (simp add: getSemver_eval)
  have "semver_valid ''1.2.0-a+b'' = Some ''1.2.0-a''"
    by (simp add: semver_valid_eq eval_defs)
  then have 2: "getSemver (JString ''1.2.0-a+b'') = Inr ''1.2.0-a''"
    by (rule getSemver_valid)
  show ?thesis
    using 1 2 by simp
qed

text \<open>
  The other conditions are needed as well. A result that starts with a dot (its first
  component is empty), or that has a release number above \<^verbatim>\<open>Number.MAX_SAFE_INTEGER\<close>,
  is rejected by \<^verbatim>\<open>semver.valid\<close> and parsed again, which can change it.
\<close>

lemma getSemver_twice_empty_release:
  "getSemver (JString ''-'') = Inr ''.0.0''
   \<and> getSemver (JString ''.0.0'') = Inr ''0.0.0''"
  by (simp add: getSemver_eval)

lemma getSemver_twice_unsafe_number:
  "getSemver (JString ''9007199254740992.1.2.3-a'') = Inr ''9007199254740992.1.2-3-a''
   \<and> getSemver (JString ''9007199254740992.1.2-3-a'') = Inr ''9007199254740992.1.2-3''"
proof -
  have v1: "semver_valid ''9007199254740992.1.2.3-a'' = None"
    and v2: "semver_valid ''9007199254740992.1.2-3-a'' = None"
    by (simp_all add: semver_valid_eq eval_defs)
  have p1: "ParseVersion (JString ''9007199254740992.1.2.3-a'') =
      Inr \<lparr>Release = [Num 9007199254740992, Num 1, Num 2, Num 3], Prerelease = [Str ''a''],
          BuildMetadata = []\<rparr>"
    by (simp add: ParseVersion_JString js_split_limit_def section_eval token_eval
          bit_length.simps Let_def)
  have p2: "ParseVersion (JString ''9007199254740992.1.2-3-a'') =
      Inr \<lparr>Release = [Num 9007199254740992, Num 1, Num 2], Prerelease = [Num 3],
          BuildMetadata = []\<rparr>"
    by (simp add: ParseVersion_JString js_split_limit_def section_eval token_eval
          bit_length.simps Let_def)
  have nb: "js_trim ''9007199254740992.1.2.3-a'' \<noteq> []" "js_trim ''9007199254740992.1.2-3-a'' \<noteq> []"
    by (simp_all add: js_trim_empty_iff is_space_def)
  show ?thesis
    using v1 v2 p1 p2 nb
    by (simp add: getSemver_def assemble_def release_string_def
          firstThreeVersionPartsAreDigits_def firstThreeVersionPartsAreDigits_from.simps
          join_parts_def number_string_examples number_string_small show_nat.simps
          digit_char_simps)
qed

text \<open>
  A release number without a double is printed as \<^verbatim>\<open>Infinity\<close>, which the second
  application does not read as a number.
\<close>

lemma round_double_overflow:
  assumes "2 ^ 1024 \<le> n"
  shows "round_double n = None"
proof -
  define e where "e = bit_length n - 53"
  define q where "q = n div 2 ^ e"
  define r where "r = n mod 2 ^ e"
  define q' where "q' = (if 2 * r > 2 ^ e \<or> (2 * r = 2 ^ e \<and> odd q) then q + 1 else q)"
  have "(2::nat) ^ 53 \<le> 2 ^ 1024"
    by (rule power_increasing) simp_all
  then have big: "\<not> n < 2 ^ 53"
    using assms by linarith
  have pos: "0 < n"
    using big by (cases n) auto
  note b = bit_length_bounds [OF pos]
  have "1024 < bit_length n"
  proof (rule ccontr)
    assume "\<not> 1024 < bit_length n"
    then have "bit_length n \<le> 1024"
      by simp
    then have "(2::nat) ^ bit_length n \<le> 2 ^ 1024"
      by (rule power_increasing) simp
    with assms b show False
      by linarith
  qed
  then have bl: "bit_length n - 1 = 52 + e" and e: "1024 \<le> 52 + e"
    by (simp_all add: e_def)
  have "(2::nat) ^ 52 * 2 ^ e \<le> n"
    using b bl by (simp add: power_add)
  then have "2 ^ 52 \<le> q"
    unfolding q_def by (simp add: less_eq_div_iff_mult_less_eq)
  then have "2 ^ 52 \<le> q'"
    by (simp add: q'_def)
  then have "(2::nat) ^ 52 * 2 ^ e \<le> q' * 2 ^ e"
    by (rule mult_le_mono1)
  moreover have "(2::nat) ^ 1024 \<le> 2 ^ (52 + e)"
    using e by (rule power_increasing) simp
  then have "(2::nat) ^ 1024 \<le> 2 ^ 52 * 2 ^ e"
    unfolding power_add .
  ultimately have "2 ^ 1024 \<le> q' * 2 ^ e"
    by (rule order_trans [rotated])
  then show ?thesis
    using big unfolding round_double_def Let_def e_def q_def r_def q'_def by simp
qed

lemma dec_val_nines: "dec_val (replicate k (CHR ''9'')) = 10 ^ k - 1"
proof (induction k)
  case 0
  show ?case by (simp add: dec_val_Nil)
next
  case (Suc k)
  have "replicate (Suc k) (CHR ''9'') = replicate k (CHR ''9'') @ ''9''"
    by (simp add: replicate_append_same)
  then have "dec_val (replicate (Suc k) (CHR ''9'')) = (10 ^ k - 1) * 10 + 9"
    using Suc by (simp add: dec_val_snoc digit_val_def)
  moreover have "(1::nat) \<le> 10 ^ k"
    by simp
  ultimately show ?case
    by (simp add: algebra_simps)
qed

lemma token_part_nines: "token_part (replicate 310 (CHR ''9'')) = NumInfinity"
proof -
  have "(2::nat) ^ 1024 \<le> 10 ^ 310 - 1"
    by simp
  then have "round_double (dec_val (replicate 310 (CHR ''9''))) = None"
    unfolding dec_val_nines by (rule round_double_overflow)
  then show ?thesis
    using token_part_digit_run [of "replicate 310 (CHR ''9'')"] by (simp add: is_digit_def list_all_iff)
qed

lemma semver_valid_long: "length v > MAX_LENGTH \<Longrightarrow> semver_valid v = None"
  by (simp add: semver_valid_eq split: option.splits)

lemma getSemver_digit_run:
  assumes "t \<noteq> []" and "list_all is_digit t" and "semver_valid t = None"
  shows "getSemver (JString t) = Inr (part_string (token_part t) @ ''.0.0'')"
proof -
  have chars: "\<forall>c \<in> set t. \<not> is_space c \<and> c \<noteq> CHR ''-'' \<and> c \<noteq> CHR ''.'' \<and> valid_section_char c"
    using assms(2) is_digit_not_space is_digit_not_sign
    by (auto simp: list_all_iff valid_section_char_def)
  have nd: "CHR ''-'' \<notin> set t" "CHR ''.'' \<notin> set t"
    using chars by auto
  have nb: "js_trim t \<noteq> []"
    using chars assms(1) by (simp add: js_trim_id)
  have sp: "js_split_limit CHR ''-'' 2 t = [t]"
    using nd by (simp add: js_split_limit_def js_split_no_sep_id)
  have ri: "replace_invalid t = t"
    using chars by (intro replace_invalid_fixed) (simp add: list_all_iff)
  have "js_split CHR ''.'' t = [t]"
    using nd by (simp add: js_split_no_sep_id)
  then have "section_parts t = [token_part t]"
    using section_parts_tokens [of t] ri assms(1) by simp
  then have pv: "ParseVersion (JString t) =
      Inr \<lparr>Release = [token_part t], Prerelease = [], BuildMetadata = []\<rparr>"
    using sp ri by (simp add: ParseVersion_JString)
  have "\<forall>s. token_part t \<noteq> Str s"
    using token_part_digit_run [OF assms(1,2)] by (simp split: option.splits)
  then have "firstThreeVersionPartsAreDigits [token_part t]"
    by (simp add: firstThree_iff)
  then have "assemble \<lparr>Release = [token_part t], Prerelease = [], BuildMetadata = []\<rparr>
      = part_string (token_part t) @ ''.0.0''"
    by (simp add: assemble_def release_string_def join_parts_def)
  then show ?thesis
    using nb assms(3) pv by (simp add: getSemver_def)
qed

lemma getSemver_twice_infinity:
  "getSemver (JString (replicate 310 (CHR ''9''))) = Inr ''Infinity.0.0''
   \<and> getSemver (JString ''Infinity.0.0'') = Inr ''0.0.0-Infinity.0.0''"
proof -
  have "semver_valid (replicate 310 (CHR ''9'')) = None"
    by (rule semver_valid_long) (simp add: MAX_LENGTH_def)
  then have "getSemver (JString (replicate 310 (CHR ''9''))) = Inr ''Infinity.0.0''"
    using getSemver_digit_run [of "replicate 310 (CHR ''9'')"]
    by (simp add: token_part_nines is_digit_def list_all_iff)
  moreover have "getSemver (JString ''Infinity.0.0'') = Inr ''0.0.0-Infinity.0.0''"
    by (simp add: getSemver_eval)
  ultimately show ?thesis by simp
qed

end
